theory Spec2Isabelle
  imports Main "HOL-Library.AList" "HOL-Library.Sublist"
begin

section \<open>Strings and values\<close>

text \<open>
  A Python \<open>str\<close> is a sequence of code points; \<open>len\<close> counts code points.
  A string is therefore a list of natural numbers, and an ASCII literal of the
  source is written \<open>ascii ''...''\<close>.
\<close>

type_synonym ustr = "nat list"

definition ascii :: "string \<Rightarrow> ustr" where
  "ascii s = map of_char s"

text \<open>
  The values that \<open>json.loads\<close> can put into the ledger, with Python's truth test.
  Numbers are left out: the program stores none and reads none.
\<close>

datatype pyval =
    PNone
  | PBool bool
  | PStr ustr
  | PList "pyval list"
  | PDict "(ustr \<times> pyval) list"

fun truthy :: "pyval \<Rightarrow> bool" where
  "truthy PNone = False"
| "truthy (PBool b) = b"
| "truthy (PStr s) = (s \<noteq> [])"
| "truthy (PList xs) = (xs \<noteq> [])"
| "truthy (PDict kvs) = (kvs \<noteq> [])"

text \<open>\<open>d.get(k)\<close> on a dict kept as an association list: \<open>None\<close> when the key is absent.\<close>

definition dict_get :: "(ustr \<times> pyval) list \<Rightarrow> ustr \<Rightarrow> pyval" where
  "dict_get d k = (case map_of d k of None \<Rightarrow> PNone | Some v \<Rightarrow> v)"

section \<open>The name sanitizer: \<open>_ascii_safe\<close>\<close>

text \<open>
  \<open>os.path.splitext\<close> of \<open>posixpath\<close>: the extension starts at the last dot
  after the last \<open>/\<close>, unless only dots come before it in the file name.
  \<open>rfind\<close> returns -1 when the character is absent.
\<close>

definition slash :: nat where "slash = 47"
definition dot :: nat where "dot = 46"
definition dash :: nat where "dash = 45"
definition newline :: nat where "newline = 10"

fun rfind_from :: "nat \<Rightarrow> ustr \<Rightarrow> int \<Rightarrow> int \<Rightarrow> int" where
  "rfind_from c [] i acc = acc"
| "rfind_from c (x # xs) i acc = rfind_from c xs (i + 1) (if x = c then i else acc)"

definition rfind :: "nat \<Rightarrow> ustr \<Rightarrow> int" where
  "rfind c p = rfind_from c p 0 (-1)"

definition splitext :: "ustr \<Rightarrow> ustr \<times> ustr" where
  "splitext p =
     (let sepIndex = rfind slash p;
          dotIndex = rfind dot p
      in if dotIndex > sepIndex
            \<and> filter (\<lambda>x. x \<noteq> dot)
                  (take (nat (dotIndex - (sepIndex + 1))) (drop (nat (sepIndex + 1)) p)) \<noteq> []
         then (take (nat dotIndex) p, drop (nat dotIndex) p)
         else (p, []))"

text \<open>\<open>.encode("ascii", "ignore").decode("ascii")\<close> and \<open>.lower()\<close> on the ASCII result.\<close>

definition ascii_ignore :: "ustr \<Rightarrow> ustr" where
  "ascii_ignore s = filter (\<lambda>c. c < 128) s"

definition lower_char :: "nat \<Rightarrow> nat" where
  "lower_char c = (if 65 \<le> c \<and> c \<le> 90 then c + 32 else c)"

definition lower :: "ustr \<Rightarrow> ustr" where
  "lower s = map lower_char s"

text \<open>The character classes \<open>[a-z0-9]\<close> and \<open>[a-z0-9-]\<close>.\<close>

definition alnum :: "nat \<Rightarrow> bool" where
  "alnum c = ((97 \<le> c \<and> c \<le> 122) \<or> (48 \<le> c \<and> c \<le> 57))"

definition idchar :: "nat \<Rightarrow> bool" where
  "idchar c = (alnum c \<or> c = dash)"

text \<open>\<open>re.sub(r"[^a-z0-9]+", "-", s)\<close>: every maximal run outside the class becomes one dash
  (\<open>in_run\<close>: the previous character was outside the class).\<close>

fun sub_dash_from :: "bool \<Rightarrow> ustr \<Rightarrow> ustr" where
  "sub_dash_from in_run [] = []"
| "sub_dash_from in_run (c # cs) =
     (if alnum c then c # sub_dash_from False cs
      else if in_run then sub_dash_from True cs
      else dash # sub_dash_from True cs)"

definition sub_dash :: "ustr \<Rightarrow> ustr" where
  "sub_dash s = sub_dash_from False s"

definition lstrip :: "nat \<Rightarrow> ustr \<Rightarrow> ustr" where
  "lstrip c s = dropWhile (\<lambda>x. x = c) s"

definition rstrip :: "nat \<Rightarrow> ustr \<Rightarrow> ustr" where
  "rstrip c s = rev (dropWhile (\<lambda>x. x = c) (rev s))"

definition strip :: "nat \<Rightarrow> ustr \<Rightarrow> ustr" where
  "strip c s = rstrip c (lstrip c s)"

text \<open>
  \<open>uuid.uuid4().hex\<close>, that is \<open>'%032x' % self.int\<close>: the 128-bit integer of the
  identifier as 32 lowercase hex digits, the most significant first.
\<close>

definition hexdigit :: "nat \<Rightarrow> nat" where
  "hexdigit n = (if n mod 16 < 10 then 48 + n mod 16 else 87 + n mod 16)"

fun hex_digits :: "nat \<Rightarrow> nat \<Rightarrow> ustr" where
  "hex_digits 0 n = []"
| "hex_digits (Suc k) n = hex_digits k (n div 16) @ [hexdigit n]"

definition hex32 :: "nat \<Rightarrow> ustr" where
  "hex32 u = hex_digits 32 u"

text \<open>
  The slug computed from the part before the extension; \<open>nfkd\<close> is
  \<open>unicodedata.normalize("NFKD", _)\<close>, a table of the Unicode database taken as a
  parameter (it is the identity on ASCII text).
\<close>

definition slug_of :: "(ustr \<Rightarrow> ustr) \<Rightarrow> ustr \<Rightarrow> ustr" where
  "slug_of nfkd base = strip dash (sub_dash (lower (ascii_ignore (nfkd base))))"

text \<open>
  \<open>_ascii_safe\<close>; \<open>u\<close> is the integer of the identifier that \<open>uuid.uuid4()\<close>
  returns if it is called (below \<open>2 ^ 128\<close>), a fresh random draw on each call.
\<close>

definition ascii_safe :: "(ustr \<Rightarrow> ustr) \<Rightarrow> nat \<Rightarrow> ustr \<Rightarrow> ustr" where
  "ascii_safe nfkd u s =
     (let base = fst (splitext s);
          slug = slug_of nfkd base;
          slug = (if slug = [] then ascii ''file-'' @ hex32 u else slug)
      in if length slug > 40 then rstrip dash (take 40 slug) else slug)"

section \<open>The identifier check: \<open>_is_valid_file_id\<close>\<close>

text \<open>
  \<open>re.match(r"^[a-z0-9-]+$", s)\<close>: the greedy class takes the longest prefix, and
  Python's \<open>$\<close> matches at the end of the string and also just before a newline
  that is the last character.
\<close>

definition re_match_id :: "ustr \<Rightarrow> bool" where
  "re_match_id s =
     (let t = takeWhile idchar s; r = dropWhile idchar s
      in t \<noteq> [] \<and> (r = [] \<or> r = [newline]))"

definition startswith :: "ustr \<Rightarrow> ustr \<Rightarrow> bool" where
  "startswith s p = (take (length p) s = p)"

text \<open>\<open>s.split("/", 1)[1]\<close> for a string that contains a slash: what follows the first one.\<close>

definition after_first_slash :: "ustr \<Rightarrow> ustr" where
  "after_first_slash s = drop 1 (dropWhile (\<lambda>c. c \<noteq> slash) s)"

fun is_valid_file_id :: "pyval \<Rightarrow> bool" where
  "is_valid_file_id (PStr file_ref) =
     (if \<not> startswith file_ref (ascii ''files/'') then False
      else let file_id = after_first_slash file_ref
           in if file_id = [] then False
              else if length file_id > 40 then False
              else re_match_id file_id)"
| "is_valid_file_id _ = False"

text \<open>
  The identifier syntax in the words of the specification: the id portion matches
  \<open>^[a-z0-9-]{1,40}$\<close>, that is, it has between 1 and 40 characters, all of them
  lowercase letters, digits or dashes.
\<close>

definition spec_id_syntax :: "ustr \<Rightarrow> bool" where
  "spec_id_syntax i = (1 \<le> length i \<and> length i \<le> 40 \<and> list_all idchar i)"

section \<open>The tool, its environment and its trace\<close>

text \<open>
  Exceptions are values. \<open>Exception\<close> stands for any exception below Python's
  \<open>Exception\<close> class raised by the remote client or the file system, with its message.
\<close>

datatype exn =
    Exception ustr
  | FileNotFoundError
  | UnicodeEncodeError

text \<open>
  A \<open>Path\<close> as the program reads it: \<open>str(p)\<close>, \<open>p.name\<close> and
  \<open>str(p.resolve())\<close>.
\<close>

record path =
  p_str :: ustr
  p_name :: ustr
  p_resolved :: ustr

record store =
  s_name :: ustr
  s_display_name :: "ustr option"

record operation =
  op_name :: ustr
  op_done :: bool

text \<open>
  Every call that leaves the process is recorded: the requests to the remote service
  and the operations on files. \<open>safe_print\<close> only writes to the terminal and
  \<open>time.sleep\<close> only waits; both are left out.
\<close>

datatype event =
    ListStores
  | CreateStore ustr
  | CopyFile ustr ustr
  | Unlink ustr
  | UploadFile ustr ustr ustr
  | ImportFile ustr ustr
  | GetOperation operation
  | WriteText ustr

text \<open>
  The environment answers each call. An answer may depend on everything that happened
  before, so each remote function also receives the trace up to the call (most recent
  event first). \<open>e_uuid4 n\<close> is the integer of the \<open>n\<close>-th random identifier,
  \<open>e_docs\<close> the recursive listing of the files of the documents directory
  (\<open>None\<close> when the directory does not exist), \<open>e_temp_path name\<close> the path
  \<open>Path(tempfile.gettempdir()) / name\<close>.
\<close>

record env =
  e_nfkd :: "ustr \<Rightarrow> ustr"
  e_uuid4 :: "nat \<Rightarrow> nat"
  e_guess_type :: "ustr \<Rightarrow> ustr option"
  e_temp_path :: "ustr \<Rightarrow> ustr"
  e_docs :: "path list option"
  e_copy2 :: "event list \<Rightarrow> ustr \<Rightarrow> ustr \<Rightarrow> exn option"
  e_stores_list :: "event list \<Rightarrow> exn + store list"
  e_stores_create :: "event list \<Rightarrow> ustr \<Rightarrow> exn + store"
  e_files_upload :: "event list \<Rightarrow> ustr \<Rightarrow> ustr \<Rightarrow> ustr \<Rightarrow> exn + ustr"
  e_import_file :: "event list \<Rightarrow> ustr \<Rightarrow> ustr \<Rightarrow> exn + operation"
  e_operations_get :: "event list \<Rightarrow> operation \<Rightarrow> exn + operation"

text \<open>
  The \<open>FileSearchTool\<close> object together with the state file it owns: the ledger
  \<open>self.state\<close> is a dict from resolved path to entry, each entry a dict from field
  name to value; \<open>state_file\<close> is the text of \<open>.file_index.json\<close> (\<open>None\<close>
  when the file does not exist); \<open>draws\<close> counts the random identifiers used.
\<close>

type_synonym entry = "(ustr \<times> pyval) list"
type_synonym ledger = "(ustr \<times> entry) list"

record tool =
  store_display_name :: ustr
  prefer_utf8 :: bool
  state :: ledger
  state_file :: "ustr option"
  trace :: "event list"
  draws :: nat

definition emit :: "event \<Rightarrow> tool \<Rightarrow> tool" where
  "emit ev w = w\<lparr>trace := ev # trace w\<rparr>"

section \<open>The persisted ledger: \<open>_save_state\<close>\<close>

text \<open>
  \<open>json.dumps(obj, indent=2, ensure_ascii=False)\<close>. A string is quoted, with only the
  quote, the backslash and the control characters below U+0020 escaped; every other
  character, ASCII or not, is copied as it is.
\<close>

definition escape_char :: "nat \<Rightarrow> ustr" where
  "escape_char c =
     (if c = 34 then ascii [CHR 0x5C, CHR 0x22]
      else if c = 92 then ascii [CHR 0x5C, CHR 0x5C]
      else if c = 10 then ascii [CHR 0x5C, CHR ''n'']
      else if c = 13 then ascii [CHR 0x5C, CHR ''r'']
      else if c = 9 then ascii [CHR 0x5C, CHR ''t'']
      else if c = 8 then ascii [CHR 0x5C, CHR ''b'']
      else if c = 12 then ascii [CHR 0x5C, CHR ''f'']
      else if c < 32 then ascii [CHR 0x5C, CHR ''u'', CHR ''0'', CHR ''0''] @ [hexdigit (c div 16), hexdigit c]
      else [c])"

definition encode_basestring :: "ustr \<Rightarrow> ustr" where
  "encode_basestring s = 34 # concat (map escape_char s) @ [34]"

definition newline_indent :: "nat \<Rightarrow> ustr" where
  "newline_indent level = newline # replicate (2 * level) 32"

fun join :: "ustr \<Rightarrow> ustr list \<Rightarrow> ustr" where
  "join sep [] = []"
| "join sep [x] = x"
| "join sep (x # y # ys) = x @ sep @ join sep (y # ys)"

fun dumps_at :: "nat \<Rightarrow> pyval \<Rightarrow> ustr" where
  "dumps_at level PNone = ascii ''null''"
| "dumps_at level (PBool b) = (if b then ascii ''true'' else ascii ''false'')"
| "dumps_at level (PStr s) = encode_basestring s"
| "dumps_at level (PList xs) =
     (if xs = [] then ascii ''[]''
      else 91 # newline_indent (level + 1)
           @ join (44 # newline_indent (level + 1)) (map (dumps_at (level + 1)) xs)
           @ newline_indent level @ [93])"
| "dumps_at level (PDict kvs) =
     (if kvs = [] then ascii ''{}''
      else 123 # newline_indent (level + 1)
           @ join (44 # newline_indent (level + 1))
               (map (\<lambda>(k, v). encode_basestring k @ [58, 32] @ dumps_at (level + 1) v) kvs)
           @ newline_indent level @ [125])"

definition ledger_value :: "ledger \<Rightarrow> pyval" where
  "ledger_value st = PDict (map (\<lambda>(k, e). (k, PDict e)) st)"

definition json_dumps :: "ledger \<Rightarrow> ustr" where
  "json_dumps st = dumps_at 0 (ledger_value st)"

text \<open>
  \<open>Path.write_text(text, encoding="utf-8")\<close> opens the file for writing, which
  empties it, and then encodes the text. UTF-8 cannot encode a lone surrogate
  (U+D800 to U+DFFF): the write raises \<open>UnicodeEncodeError\<close> and leaves the file
  empty. Other failures of the file system are not modelled.
\<close>

definition utf8_encodable :: "ustr \<Rightarrow> bool" where
  "utf8_encodable s = list_all (\<lambda>c. \<not> (55296 \<le> c \<and> c \<le> 57343)) s"

text \<open>A value, or a ledger, all of whose strings are free of lone surrogates.\<close>

fun val_encodable :: "pyval \<Rightarrow> bool" where
  "val_encodable PNone = True"
| "val_encodable (PBool b) = True"
| "val_encodable (PStr s) = utf8_encodable s"
| "val_encodable (PList xs) = list_all val_encodable xs"
| "val_encodable (PDict kvs) = list_all (\<lambda>(k, v). utf8_encodable k \<and> val_encodable v) kvs"

definition ledger_encodable :: "ledger \<Rightarrow> bool" where
  "ledger_encodable st = val_encodable (ledger_value st)"

definition save_state :: "tool \<Rightarrow> exn option \<times> tool" where
  "save_state w =
     (let text = json_dumps (state w)
      in if utf8_encodable text
         then (None, emit (WriteText text) (w\<lparr>state_file := Some text\<rparr>))
         else (Some UnicodeEncodeError, emit (WriteText []) (w\<lparr>state_file := Some []\<rparr>)))"

section \<open>Reading the ledger back: \<open>_load_state\<close>\<close>

text \<open>
  \<open>Path.read_text(encoding="utf-8")\<close> reads in text mode with universal newlines: a
  carriage return, alone or followed by a line feed, is read as one line feed.
\<close>

fun universal_newlines :: "ustr \<Rightarrow> ustr" where
  "universal_newlines [] = []"
| "universal_newlines [c] = [if c = 13 then 10 else c]"
| "universal_newlines (c # d # ds) =
     (if c = 13 \<and> d = 10 then 10 # universal_newlines ds
      else if c = 13 then 10 # universal_newlines (d # ds)
      else c # universal_newlines (d # ds))"

text \<open>\<open>json.loads\<close>. Whitespace is \<open>[ \t\n\r]*\<close>.\<close>

definition is_ws :: "nat \<Rightarrow> bool" where
  "is_ws c = (c = 32 \<or> c = 9 \<or> c = 10 \<or> c = 13)"

definition skip_ws :: "ustr \<Rightarrow> ustr" where
  "skip_ws s = dropWhile is_ws s"

definition hexval :: "nat \<Rightarrow> nat option" where
  "hexval c =
     (if 48 \<le> c \<and> c \<le> 57 then Some (c - 48)
      else if 97 \<le> c \<and> c \<le> 102 then Some (c - 87)
      else if 65 \<le> c \<and> c \<le> 70 then Some (c - 55)
      else None)"

text \<open>\<open>_decode_uXXXX\<close>: the number written by the four hex digits at the start of the text.\<close>

definition decode_uXXXX :: "ustr \<Rightarrow> nat option" where
  "decode_uXXXX s =
     (case s of
        a # b # c # d # rest \<Rightarrow>
          Option.bind (hexval a) (\<lambda>x. Option.bind (hexval b) (\<lambda>y.
          Option.bind (hexval c) (\<lambda>z. Option.bind (hexval d) (\<lambda>u.
            Some (((x * 16 + y) * 16 + z) * 16 + u)))))
      | _ \<Rightarrow> None)"

text \<open>The table \<open>BACKSLASH\<close> of the one-letter escapes.\<close>

definition unescape :: "nat \<Rightarrow> nat option" where
  "unescape e =
     (if e = 34 then Some 34
      else if e = 92 then Some 92
      else if e = 47 then Some 47
      else if e = 98 then Some 8
      else if e = 102 then Some 12
      else if e = 110 then Some 10
      else if e = 114 then Some 13
      else if e = 116 then Some 9
      else None)"

definition cons_char :: "nat \<Rightarrow> (ustr \<times> ustr) option \<Rightarrow> (ustr \<times> ustr) option" where
  "cons_char c r = (case r of None \<Rightarrow> None | Some (s, rest) \<Rightarrow> Some (c # s, rest))"

text \<open>
  \<open>scanstring\<close> in strict mode, from the character after the opening quote: the
  decoded string and the text after the closing quote, or \<open>None\<close> where it raises (no
  closing quote, a raw control character, an unknown escape, a bad \<open>\uXXXX\<close>). A high
  surrogate escape followed by a low surrogate escape is joined into one character.
\<close>

fun scanstring :: "ustr \<Rightarrow> (ustr \<times> ustr) option" where
  "scanstring [] = None"
| "scanstring (c # cs) =
     (if c = 34 then Some ([], cs)
      else if c = 92 then
        (case cs of
           [] \<Rightarrow> None
         | e # cs1 \<Rightarrow>
             if e = 117 then
               (case decode_uXXXX cs1 of
                  None \<Rightarrow> None
                | Some uni \<Rightarrow>
                    if 55296 \<le> uni \<and> uni \<le> 56319 \<and> take 2 (drop 4 cs1) = [92, 117] then
                      (case decode_uXXXX (drop 6 cs1) of
                         None \<Rightarrow> None
                       | Some uni2 \<Rightarrow>
                           if 56320 \<le> uni2 \<and> uni2 \<le> 57343
                           then cons_char (65536 + ((uni - 55296) * 1024 + (uni2 - 56320)))
                                  (scanstring (drop 10 cs1))
                           else cons_char uni (scanstring (drop 4 cs1)))
                    else cons_char uni (scanstring (drop 4 cs1)))
             else (case unescape e of
                     None \<Rightarrow> None
                   | Some ch \<Rightarrow> cons_char ch (scanstring cs1)))
      else if c < 32 then None
      else cons_char c (scanstring cs))"

text \<open>
  \<open>dict(pairs)\<close>: a key that comes again keeps its first place and takes the later value.
\<close>

definition dict_of :: "(ustr \<times> pyval) list \<Rightarrow> (ustr \<times> pyval) list" where
  "dict_of pairs = foldl (\<lambda>d (k, v). AList.update k v d) [] pairs"

text \<open>
  The scanner: \<open>scan_once\<close> reads one value at the start of the text, \<open>scan_array\<close>
  the elements of an array from its first element on (\<open>JSONArray\<close>), \<open>scan_object\<close>
  the members of an object from the character after the opening quote of a key on
  (\<open>JSONObject\<close>). Each gives the value and the text after it, or \<open>None\<close> where the
  decoder raises. The first argument bounds the number of calls still allowed; every
  call reads at least one character that no other call reads, so the length of the
  text is enough. A number is not a value of this model: a text that holds one is
  outside of it.
\<close>

fun scan_once :: "nat \<Rightarrow> ustr \<Rightarrow> (pyval \<times> ustr) option"
  and scan_array :: "nat \<Rightarrow> ustr \<Rightarrow> (pyval list \<times> ustr) option"
  and scan_object :: "nat \<Rightarrow> ustr \<Rightarrow> ((ustr \<times> pyval) list \<times> ustr) option" where
  "scan_once 0 s = None"
| "scan_once (Suc n) s =
     (case s of
        [] \<Rightarrow> None
      | c # cs \<Rightarrow>
          if c = 34 then
            (case scanstring cs of None \<Rightarrow> None | Some (str, rest) \<Rightarrow> Some (PStr str, rest))
          else if c = 123 then
            (case skip_ws cs of
               [] \<Rightarrow> None
             | d # ds \<Rightarrow>
                 if d = 125 then Some (PDict [], ds)
                 else if d = 34 then
                   (case scan_object n ds of
                      None \<Rightarrow> None
                    | Some (pairs, rest) \<Rightarrow> Some (PDict (dict_of pairs), rest))
                 else None)
          else if c = 91 then
            (case skip_ws cs of
               [] \<Rightarrow> None
             | d # ds \<Rightarrow>
                 if d = 93 then Some (PList [], ds)
                 else (case scan_array n (d # ds) of
                         None \<Rightarrow> None
                       | Some (xs, rest) \<Rightarrow> Some (PList xs, rest)))
          else if startswith s (ascii ''null'') then Some (PNone, drop 4 s)
          else if startswith s (ascii ''true'') then Some (PBool True, drop 4 s)
          else if startswith s (ascii ''false'') then Some (PBool False, drop 5 s)
          else None)"
| "scan_array 0 s = None"
| "scan_array (Suc n) s =
     (case scan_once n s of
        None \<Rightarrow> None
      | Some (v, rest) \<Rightarrow>
          (case skip_ws rest of
             [] \<Rightarrow> None
           | d # ds \<Rightarrow>
               if d = 93 then Some ([v], ds)
               else if d = 44 then
                 (case scan_array n (skip_ws ds) of
                    None \<Rightarrow> None
                  | Some (vs, rest') \<Rightarrow> Some (v # vs, rest'))
               else None))"
| "scan_object 0 s = None"
| "scan_object (Suc n) s =
     (case scanstring s of
        None \<Rightarrow> None
      | Some (key, r0) \<Rightarrow>
          (case skip_ws r0 of
             [] \<Rightarrow> None
           | c # r1 \<Rightarrow>
               if c \<noteq> 58 then None
               else (case scan_once n (skip_ws r1) of
                       None \<Rightarrow> None
                     | Some (v, r2) \<Rightarrow>
                         (case skip_ws r2 of
                            [] \<Rightarrow> None
                          | d # ds \<Rightarrow>
                              if d = 125 then Some ([(key, v)], ds)
                              else if d = 44 then
                                (case skip_ws ds of
                                   [] \<Rightarrow> None
                                 | q # r3 \<Rightarrow>
                                     if q \<noteq> 34 then None
                                     else (case scan_object n r3 of
                                             None \<Rightarrow> None
                                           | Some (pairs, rest) \<Rightarrow> Some ((key, v) # pairs, rest)))
                              else None))))"

text \<open>\<open>json.loads\<close>: one value, with whitespace before and after it and nothing else.\<close>

definition json_loads :: "ustr \<Rightarrow> pyval option" where
  "json_loads text =
     (case scan_once (length text) (skip_ws text) of
        None \<Rightarrow> None
      | Some (v, rest) \<Rightarrow> if skip_ws rest = [] then Some v else None)"

text \<open>
  \<open>_load_state\<close>: the parsed content of the state file, or the empty dict when the
  file is missing or \<open>json.loads\<close> raises.
\<close>

definition load_state :: "tool \<Rightarrow> pyval" where
  "load_state w =
     (case state_file w of
        None \<Rightarrow> PDict []
      | Some text \<Rightarrow>
          (case json_loads (universal_newlines text) of None \<Rightarrow> PDict [] | Some v \<Rightarrow> v))"

text \<open>A Python dict has each key once, at every level of a value.\<close>

fun distinct_keys :: "pyval \<Rightarrow> bool" where
  "distinct_keys PNone = True"
| "distinct_keys (PBool b) = True"
| "distinct_keys (PStr s) = True"
| "distinct_keys (PList xs) = list_all distinct_keys xs"
| "distinct_keys (PDict kvs) = (distinct (map fst kvs) \<and> list_all (\<lambda>(k, v). distinct_keys v) kvs)"

text \<open>
  The strings of a value, its dict keys included, and the strings that
  \<open>json.dumps(..., ensure_ascii=False)\<close> has nothing to escape in: no quote, no
  backslash, no control character below U+0020. Every non-ASCII character is of this kind.
\<close>

fun strings_of :: "pyval \<Rightarrow> ustr list" where
  "strings_of PNone = []"
| "strings_of (PBool b) = []"
| "strings_of (PStr s) = [s]"
| "strings_of (PList xs) = concat (map strings_of xs)"
| "strings_of (PDict kvs) = concat (map (\<lambda>(k, v). k # strings_of v) kvs)"

definition plain :: "ustr \<Rightarrow> bool" where
  "plain s = list_all (\<lambda>c. 32 \<le> c \<and> c \<noteq> 34 \<and> c \<noteq> 92) s"

section \<open>Pruning the ledger: \<open>clean_state\<close>\<close>

definition file_id_key :: ustr where
  "file_id_key = ascii ''file_id''"

text \<open>The test of the loop body: \<open>not file_id or not self._is_valid_file_id(file_id)\<close>.\<close>

definition entry_invalid :: "entry \<Rightarrow> bool" where
  "entry_invalid v =
     (let file_id = dict_get v file_id_key
      in \<not> truthy file_id \<or> \<not> is_valid_file_id file_id)"

text \<open>
  The loop runs over a snapshot of the items and deletes from the live dict;
  \<open>changed\<close> records whether anything was deleted.
\<close>

fun clean_state_loop :: "ledger \<Rightarrow> ledger \<Rightarrow> bool \<Rightarrow> ledger \<times> bool" where
  "clean_state_loop [] st changed = (st, changed)"
| "clean_state_loop ((k, v) # items) st changed =
     (if entry_invalid v then clean_state_loop items (AList.delete k st) True
      else clean_state_loop items st changed)"

definition clean_state :: "tool \<Rightarrow> exn option \<times> tool" where
  "clean_state w =
     (case clean_state_loop (state w) (state w) False of
        (st, changed) \<Rightarrow>
          if changed then save_state (w\<lparr>state := st\<rparr>) else (None, w\<lparr>state := st\<rparr>))"

section \<open>Uploading: \<open>upload_file\<close>\<close>

text \<open>
  \<open>self._ascii_safe(s)\<close> as a method call: the random identifier is the next draw of
  the environment, consumed only when the fallback is taken.
\<close>

definition ascii_safe_call :: "env \<Rightarrow> tool \<Rightarrow> ustr \<Rightarrow> ustr \<times> tool" where
  "ascii_safe_call env w s =
     (ascii_safe (e_nfkd env) (e_uuid4 env (draws w)) s,
      if slug_of (e_nfkd env) (fst (splitext s)) = [] then w\<lparr>draws := Suc (draws w)\<rparr> else w)"

definition isascii :: "ustr \<Rightarrow> bool" where
  "isascii s = list_all (\<lambda>c. c < 128) s"

text \<open>
  The inner function \<open>try_upload_with_name\<close>: a file whose name is not ASCII is first
  copied to the temporary directory under \<open>name\<close>; the copy is removed in the
  \<open>finally\<close> block when it was made. Every exception propagates.
\<close>

definition try_upload_with_name :: "env \<Rightarrow> tool \<Rightarrow> path \<Rightarrow> ustr \<Rightarrow> (exn + ustr) \<times> tool" where
  "try_upload_with_name env w file_path name =
     (let has_non_ascii = \<not> isascii (p_name file_path);
          mime_type = (case e_guess_type env (p_name file_path) of
                         None \<Rightarrow> ascii ''application/octet-stream''
                       | Some m \<Rightarrow> if m = [] then ascii ''application/octet-stream'' else m)
      in if has_non_ascii
         then let temp_path = e_temp_path env name;
                  w1 = emit (CopyFile (p_str file_path) temp_path) w
              in (case e_copy2 env (trace w) (p_str file_path) temp_path of
                    Some e \<Rightarrow> (Inl e, w1)
                  | None \<Rightarrow>
                      (e_files_upload env (trace w1) temp_path name mime_type,
                       emit (Unlink temp_path) (emit (UploadFile temp_path name mime_type) w1)))
         else (e_files_upload env (trace w) (p_str file_path) name mime_type,
               emit (UploadFile (p_str file_path) name mime_type) w))"

definition file_info_of :: "ustr \<Rightarrow> ustr \<Rightarrow> ustr \<Rightarrow> entry" where
  "file_info_of resource_name original_name safe_name =
     [(ascii ''file_id'', PStr resource_name),
      (ascii ''file_name'', PStr resource_name),
      (ascii ''original_file_name'', PStr original_name),
      (ascii ''safe_file_name'', PStr safe_name)]"

text \<open>\<open>self.state.get(key, {})\<close>.\<close>

definition state_get :: "ledger \<Rightarrow> ustr \<Rightarrow> entry" where
  "state_get st key = (case map_of st key of None \<Rightarrow> [] | Some e \<Rightarrow> e)"

text \<open>
  The two modes of naming: with \<open>prefer_utf8\<close> the original name is tried first and
  any exception falls back to the sanitized name; otherwise one attempt with the
  sanitized name.
\<close>

definition upload_with_fallback :: "env \<Rightarrow> tool \<Rightarrow> path \<Rightarrow> ustr \<Rightarrow> (exn + ustr) \<times> tool" where
  "upload_with_fallback env w file_path safe_name =
     (if prefer_utf8 w
      then (case try_upload_with_name env w file_path (p_name file_path) of
              (Inr resource, w2) \<Rightarrow> (Inr resource, w2)
            | (Inl e, w2) \<Rightarrow> try_upload_with_name env w2 file_path safe_name)
      else try_upload_with_name env w file_path safe_name)"

text \<open>The end of \<open>upload_file\<close>: the new entry is stored and the ledger saved at once.\<close>

definition record_upload :: "tool \<Rightarrow> path \<Rightarrow> ustr \<Rightarrow> ustr \<Rightarrow> (exn + entry) \<times> tool" where
  "record_upload w file_path resource safe_name =
     (let file_info = file_info_of resource (p_name file_path) safe_name
      in (case save_state (w\<lparr>state := AList.update (p_resolved file_path) file_info (state w)\<rparr>) of
            (Some e, w4) \<Rightarrow> (Inl e, w4)
          | (None, w4) \<Rightarrow> (Inr file_info, w4)))"

definition upload_file :: "env \<Rightarrow> tool \<Rightarrow> path \<Rightarrow> (exn + entry) \<times> tool" where
  "upload_file env w file_path =
     (let key = p_resolved file_path
      in if truthy (dict_get (state_get (state w) key) file_id_key)
         then (Inr (state_get (state w) key), w)
         else
           (case ascii_safe_call env w (p_name file_path) of
              (safe_name, w1) \<Rightarrow>
                (case upload_with_fallback env w1 file_path safe_name of
                   (Inl e, w3) \<Rightarrow> (Inl e, w3)
                 | (Inr resource, w3) \<Rightarrow> record_upload w3 file_path resource safe_name)))"

section \<open>Importing: \<open>import_file_to_store\<close>\<close>

text \<open>
  The polling loop \<open>while not op.done\<close>, outside the \<open>try\<close> block of the import
  request. It has no bound: the value \<open>None\<close> stands for a loop that never ends.
\<close>

partial_function (option) wait_for_import ::
  "env \<Rightarrow> tool \<Rightarrow> operation \<Rightarrow> ((exn + operation) \<times> tool) option" where
  "wait_for_import env w op =
     (if op_done op then Some (Inr op, w)
      else (case e_operations_get env (trace w) op of
              Inl e \<Rightarrow> Some (Inl e, emit (GetOperation op) w)
            | Inr op' \<Rightarrow> wait_for_import env (emit (GetOperation op) w) op'))"

definition normalize_ref :: "ustr \<Rightarrow> ustr" where
  "normalize_ref file_name =
     (if startswith file_name (ascii ''files/'') then file_name else ascii ''files/'' @ file_name)"

text \<open>
  The result is \<open>Inr None\<close> where the source returns \<open>None\<close> (the id is missing or
  malformed, or the import request raised), \<open>Inr (Some op)\<close> for the finished
  operation, \<open>Inl e\<close> for an exception that leaves the function.
\<close>

definition import_file_to_store ::
  "env \<Rightarrow> tool \<Rightarrow> ustr \<Rightarrow> ustr \<Rightarrow> ((exn + operation option) \<times> tool) option" where
  "import_file_to_store env w store_name file_name =
     (if file_name = [] then Some (Inr None, w)
      else let file_ref = normalize_ref file_name
           in if \<not> is_valid_file_id (PStr file_ref) then Some (Inr None, w)
              else (case e_import_file env (trace w) store_name file_ref of
                      Inl e \<Rightarrow> Some (Inr None, emit (ImportFile store_name file_ref) w)
                    | Inr op \<Rightarrow>
                        (case wait_for_import env (emit (ImportFile store_name file_ref) w) op of
                           None \<Rightarrow> None
                         | Some (Inl e, w2) \<Rightarrow> Some (Inl e, w2)
                         | Some (Inr op', w2) \<Rightarrow> Some (Inr (Some op'), w2))))"

section \<open>The batch driver: \<open>prepare\<close>\<close>

definition remote_create :: "env \<Rightarrow> tool \<Rightarrow> ustr \<Rightarrow> (exn + store) \<times> tool" where
  "remote_create env w display_name =
     (e_stores_create env (trace w) display_name, emit (CreateStore display_name) w)"

definition create_or_get_file_search_store :: "env \<Rightarrow> tool \<Rightarrow> (exn + store) \<times> tool" where
  "create_or_get_file_search_store env w =
     (case e_stores_list env (trace w) of
        Inl e \<Rightarrow> (Inl e, emit ListStores w)
      | Inr stores \<Rightarrow>
          (case ascii_safe_call env (emit ListStores w) (store_display_name w) of
             (safe_display, w1) \<Rightarrow>
               (case find (\<lambda>s. s_display_name s = Some (store_display_name w)
                               \<or> s_display_name s = Some safe_display) stores of
                  Some s \<Rightarrow> (Inr s, w1)
                | None \<Rightarrow>
                    if prefer_utf8 w
                    then (case remote_create env w1 (store_display_name w) of
                            (Inr s, w2) \<Rightarrow> (Inr s, w2)
                          | (Inl e, w2) \<Rightarrow> remote_create env w2 safe_display)
                    else remote_create env w1 safe_display)))"

definition list_docs :: "env \<Rightarrow> exn + path list" where
  "list_docs env = (case e_docs env of None \<Rightarrow> Inl FileNotFoundError | Some files \<Rightarrow> Inr files)"

text \<open>
  The body of the \<open>for\<close> loop for one file. Both \<open>try\<close> blocks catch every
  \<open>Exception\<close>, so the body itself raises nothing. An id that is true but not a
  string makes \<open>import_file_to_store\<close> raise \<open>AttributeError\<close> at
  \<open>startswith\<close>, inside the second \<open>try\<close>.
\<close>

definition prepare_file :: "env \<Rightarrow> ustr \<Rightarrow> tool \<Rightarrow> path \<Rightarrow> tool option" where
  "prepare_file env store_name w f =
     (case upload_file env w f of
        (Inl e, w1) \<Rightarrow> Some w1
      | (Inr info, w1) \<Rightarrow>
          if info = [] \<or> \<not> truthy (dict_get info file_id_key) then Some w1
          else (case dict_get info file_id_key of
                  PStr file_id \<Rightarrow>
                    (case import_file_to_store env w1 store_name file_id of
                       None \<Rightarrow> None
                     | Some (r, w2) \<Rightarrow> Some w2)
                | _ \<Rightarrow> Some w1))"

fun prepare_loop :: "env \<Rightarrow> ustr \<Rightarrow> tool \<Rightarrow> path list \<Rightarrow> tool option" where
  "prepare_loop env store_name w [] = Some w"
| "prepare_loop env store_name w (f # fs) =
     (case prepare_file env store_name w f of
        None \<Rightarrow> None
      | Some w' \<Rightarrow> prepare_loop env store_name w' fs)"

definition prepare :: "env \<Rightarrow> tool \<Rightarrow> ((exn + store) \<times> tool) option" where
  "prepare env w =
     (case create_or_get_file_search_store env w of
        (Inl e, w1) \<Rightarrow> Some (Inl e, w1)
      | (Inr store, w1) \<Rightarrow>
          (case list_docs env of
             Inl e \<Rightarrow> Some (Inl e, w1)
           | Inr files \<Rightarrow>
               if files = [] then Some (Inr store, w1)
               else (case clean_state w1 of
                       (Some e, w2) \<Rightarrow> Some (Inl e, w2)
                     | (None, w2) \<Rightarrow>
                         (case prepare_loop env (s_name store) w2 files of
                            None \<Rightarrow> None
                          | Some w3 \<Rightarrow> Some (Inr store, w3)))))"

section \<open>Observing a run\<close>

text \<open>
  \<open>finishes n env w op\<close>: polled from the tool state \<open>w\<close>, the operation reports done,
  or a poll raises, within \<open>n\<close> polls.
\<close>

fun finishes :: "nat \<Rightarrow> env \<Rightarrow> tool \<Rightarrow> operation \<Rightarrow> bool" where
  "finishes 0 env w op = op_done op"
| "finishes (Suc n) env w op =
     (op_done op \<or>
      (case e_operations_get env (trace w) op of
         Inl e \<Rightarrow> True
       | Inr op' \<Rightarrow> finishes n env (emit (GetOperation op) w) op'))"

text \<open>
  An upload of the file \<open>f\<close> was attempted: the trace holds the copy of \<open>f\<close> to the
  temporary directory or the upload request for \<open>f\<close> itself.
\<close>

fun upload_event_for :: "path \<Rightarrow> event \<Rightarrow> bool" where
  "upload_event_for f (CopyFile src dst) = (src = p_str f)"
| "upload_event_for f (UploadFile file name mime) = (file = p_str f)"
| "upload_event_for f ev = False"

definition upload_attempted :: "path \<Rightarrow> event list \<Rightarrow> bool" where
  "upload_attempted f tr = list_ex (upload_event_for f) tr"

text \<open>The events that a step from \<open>w\<close> to \<open>w'\<close> put in front of the trace.\<close>

definition new_events :: "tool \<Rightarrow> tool \<Rightarrow> event list" where
  "new_events w w' = take (length (trace w') - length (trace w)) (trace w')"

text \<open>The ledger already answers for \<open>f\<close>: the test at the head of \<open>upload_file\<close>.\<close>

definition cached :: "tool \<Rightarrow> path \<Rightarrow> bool" where
  "cached w f = truthy (dict_get (state_get (state w) (p_resolved f)) file_id_key)"

text \<open>
  The ids that uploads returned, read off a trace: each upload request is answered by
  the environment on the trace before it.
\<close>

fun uploaded_ids :: "env \<Rightarrow> event list \<Rightarrow> ustr list" where
  "uploaded_ids env [] = []"
| "uploaded_ids env (UploadFile file name mime # tr) =
     (case e_files_upload env tr file name mime of
        Inl e \<Rightarrow> uploaded_ids env tr
      | Inr resource \<Rightarrow> resource # uploaded_ids env tr)"
| "uploaded_ids env (ev # tr) = uploaded_ids env tr"

text \<open>
  Where an id may come from: it is the id of an entry of the ledger \<open>st0\<close> and passes
  the identifier check as it stands, or an upload recorded in the trace returned it.
\<close>

definition good_id :: "ledger \<Rightarrow> env \<Rightarrow> event list \<Rightarrow> ustr \<Rightarrow> bool" where
  "good_id st0 env tr s =
     ((is_valid_file_id (PStr s) \<and> list_ex (\<lambda>(k, e). dict_get e file_id_key = PStr s) st0)
      \<or> s \<in> set (uploaded_ids env tr))"

text \<open>
  An import request for \<open>file_ref\<close> is in order: the reference passes the identifier
  check, and it is the id of an entry of the ledger \<open>st0\<close> or the normalised form of an
  id that an upload recorded in the trace returned.
\<close>

definition import_ok :: "ledger \<Rightarrow> env \<Rightarrow> event list \<Rightarrow> ustr \<Rightarrow> bool" where
  "import_ok st0 env tr file_ref =
     (is_valid_file_id (PStr file_ref)
      \<and> (list_ex (\<lambda>(k, e). dict_get e file_id_key = PStr file_ref) st0
           \<or> list_ex (\<lambda>resource. normalize_ref resource = file_ref) (uploaded_ids env tr)))"

text \<open>Every entry of the live ledger with a non-empty id has a string id of known origin.\<close>

definition ledger_ok :: "ledger \<Rightarrow> env \<Rightarrow> tool \<Rightarrow> bool" where
  "ledger_ok st0 env w =
     list_all (\<lambda>(k, e). truthy (dict_get e file_id_key) \<longrightarrow>
                 (case dict_get e file_id_key of PStr s \<Rightarrow> good_id st0 env (trace w) s | _ \<Rightarrow> False))
       (state w)"

fun is_import :: "event \<Rightarrow> bool" where
  "is_import (ImportFile store_name file_ref) = True"
| "is_import ev = False"

text \<open>
  \<open>adds P w w'\<close>: the trace of \<open>w'\<close> is the trace of \<open>w\<close> with new events in front, all
  of which satisfy \<open>P\<close>; \<open>quiet\<close>: none of the new events is an import request.
\<close>

definition adds :: "(event \<Rightarrow> bool) \<Rightarrow> tool \<Rightarrow> tool \<Rightarrow> bool" where
  "adds P w w' = (\<exists>new. trace w' = new @ trace w \<and> list_all P new)"

abbreviation quiet :: "tool \<Rightarrow> tool \<Rightarrow> bool" where
  "quiet w w' \<equiv> adds (\<lambda>ev. \<not> is_import ev) w w'"

section \<open>Example tools and environments\<close>

text \<open>
  Concrete inputs for the examples below. The environments normalise nothing (the
  names used are ASCII), draw the identifiers 0, 1, 2, ..., never fail to copy a file
  and list one existing store.
\<close>

definition example_tool :: "ledger \<Rightarrow> tool" where
  "example_tool st =
     \<lparr>store_display_name = ascii ''docs-file-search'', prefer_utf8 = False, state = st,
      state_file = None, trace = [], draws = 0\<rparr>"

definition example_store :: store where
  "example_store =
     \<lparr>s_name = ascii ''fileSearchStores/s1'', s_display_name = Some (ascii ''docs-file-search'')\<rparr>"

definition example_env ::
  "path list option \<Rightarrow> (ustr \<Rightarrow> exn + ustr) \<Rightarrow> (ustr \<Rightarrow> exn + operation)
     \<Rightarrow> (operation \<Rightarrow> exn + operation) \<Rightarrow> env" where
  "example_env docs upload import_file get =
     \<lparr>e_nfkd = id, e_uuid4 = id, e_guess_type = (\<lambda>name. None),
      e_temp_path = (\<lambda>name. ascii ''/tmp/'' @ name), e_docs = docs,
      e_copy2 = (\<lambda>tr src dst. None),
      e_stores_list = (\<lambda>tr. Inr [example_store]),
      e_stores_create = (\<lambda>tr name. Inr \<lparr>s_name = ascii ''fileSearchStores/s2'', s_display_name = Some name\<rparr>),
      e_files_upload = (\<lambda>tr file name mime. upload file),
      e_import_file = (\<lambda>tr store_name file_ref. import_file file_ref),
      e_operations_get = (\<lambda>tr op. get op)\<rparr>"

definition doc :: "string \<Rightarrow> path" where
  "doc name =
     \<lparr>p_str = ascii ''docs/'' @ ascii name, p_name = ascii name,
      p_resolved = ascii ''/home/u/docs/'' @ ascii name\<rparr>"

text \<open>A remote service that rejects every request.\<close>

definition refuse :: "'a \<Rightarrow> exn + 'b" where
  "refuse x = Inl (Exception (ascii ''UNAVAILABLE''))"

text \<open>
  The ledger of the specification's example: an entry with an empty id, one with an id
  of 50 characters, and a valid one.
\<close>

definition ledger3 :: ledger where
  "ledger3 =
     [(p_resolved (doc ''a.txt''), file_info_of [] (ascii ''a.txt'') (ascii ''a'')),
      (p_resolved (doc ''b.txt''), file_info_of (ascii ''files/'' @ replicate 50 97) (ascii ''b.txt'') (ascii ''b'')),
      (p_resolved (doc ''c.txt''), file_info_of (ascii ''files/abc-123'') (ascii ''c.txt'') (ascii ''c''))]"

text \<open>Answers of the remote service used in the examples.\<close>

definition upload_ok :: "ustr \<Rightarrow> exn + ustr" where
  "upload_ok file = Inr (ascii ''files/up-1'')"

definition pending_op :: operation where
  "pending_op = \<lparr>op_name = ascii ''operations/1'', op_done = False\<rparr>"

definition import_pending :: "ustr \<Rightarrow> exn + operation" where
  "import_pending file_ref = Inr pending_op"

definition get_done :: "operation \<Rightarrow> exn + operation" where
  "get_done op = Inr (op\<lparr>op_done := True\<rparr>)"

definition get_pending :: "operation \<Rightarrow> exn + operation" where
  "get_pending op = Inr op"

text \<open>An upload service that fails for \<open>b.txt\<close> only.\<close>

definition upload_b_fails :: "ustr \<Rightarrow> exn + ustr" where
  "upload_b_fails file =
     (if file = p_str (doc ''b.txt'') then Inl (Exception (ascii ''UNAVAILABLE''))
      else Inr (ascii ''files/up-1''))"

section \<open>Properties of the sanitizer\<close>

lemma sub_dash_from_idchar: "c \<in> set (sub_dash_from r s) \<Longrightarrow> idchar c"
  by (induction s arbitrary: r) (auto simp: idchar_def split: if_splits)

lemma set_rstrip: "set (rstrip c s) \<subseteq> set s"
  unfolding rstrip_def using set_dropWhileD[of _ "\<lambda>x. x = c" "rev s"] by auto

lemma set_lstrip: "set (lstrip c s) \<subseteq> set s"
  unfolding lstrip_def using set_dropWhileD by fastforce

lemma set_strip: "set (strip c s) \<subseteq> set s"
  unfolding strip_def using set_rstrip set_lstrip by blast

lemma length_rstrip: "length (rstrip c s) \<le> length s"
  unfolding rstrip_def using length_dropWhile_le[of "\<lambda>x. x = c" "rev s"] by simp

lemma slug_of_idchar: "c \<in> set (slug_of nfkd b) \<Longrightarrow> idchar c"
  unfolding slug_of_def sub_dash_def using set_strip sub_dash_from_idchar by blast

lemma hexdigit_alnum: "alnum (hexdigit n)"
proof -
  have "n mod 16 < 16" by simp
  then show ?thesis unfolding hexdigit_def alnum_def by auto
qed

lemma hex_digits_idchar: "c \<in> set (hex_digits k n) \<Longrightarrow> idchar c"
  by (induction k arbitrary: n) (auto simp: idchar_def hexdigit_alnum)

lemma hex32_idchar: "c \<in> set (hex32 u) \<Longrightarrow> idchar c"
  unfolding hex32_def by (rule hex_digits_idchar)

lemma length_hex_digits: "length (hex_digits k n) = k"
  by (induction k arbitrary: n) auto

lemma length_hex32: "length (hex32 u) = 32"
  by (simp add: hex32_def length_hex_digits)

lemma ascii_file_idchar: "c \<in> set (ascii ''file-'') \<Longrightarrow> idchar c"
  by (auto simp: ascii_def idchar_def alnum_def dash_def)

lemma fallback_idchar: "c \<in> set (ascii ''file-'' @ hex32 u) \<Longrightarrow> idchar c"
  using hex32_idchar ascii_file_idchar by auto

lemma finish_idchar:
  assumes "\<And>c. c \<in> set slug \<Longrightarrow> idchar c"
  shows "c \<in> set (if length slug > 40 then rstrip dash (take 40 slug) else slug) \<Longrightarrow> idchar c"
  using assms set_rstrip[of dash "take 40 slug"] by (auto split: if_splits dest: in_set_takeD)

lemma ascii_safe_idchar: "c \<in> set (ascii_safe nfkd u s) \<Longrightarrow> idchar c"
proof (cases "slug_of nfkd (fst (splitext s)) = []")
  case True
  then have "ascii_safe nfkd u s = (let slug = ascii ''file-'' @ hex32 u in if length slug > 40 then rstrip dash (take 40 slug) else slug)"
    by (simp add: ascii_safe_def Let_def)
  then show "c \<in> set (ascii_safe nfkd u s) \<Longrightarrow> idchar c"
    using finish_idchar[of "ascii ''file-'' @ hex32 u" c] fallback_idchar by (simp add: Let_def)
next
  case False
  then have "ascii_safe nfkd u s = (let slug = slug_of nfkd (fst (splitext s)) in if length slug > 40 then rstrip dash (take 40 slug) else slug)"
    by (simp add: ascii_safe_def Let_def)
  then show "c \<in> set (ascii_safe nfkd u s) \<Longrightarrow> idchar c"
    using finish_idchar[of "slug_of nfkd (fst (splitext s))" c] slug_of_idchar by (simp add: Let_def)
qed

lemma ascii_safe_length: "length (ascii_safe nfkd u s) \<le> 40"
  unfolding ascii_safe_def Let_def
  using length_rstrip[of dash "take 40 (slug_of nfkd (fst (splitext s)))"]
        length_rstrip[of dash "take 40 (ascii ''file-'' @ hex32 u)"]
  by (auto)

lemma idchar_not_sep: "idchar c \<Longrightarrow> c \<noteq> slash \<and> c \<noteq> dot \<and> c \<noteq> 92 \<and> c \<noteq> newline"
  by (auto simp: idchar_def alnum_def slash_def dot_def dash_def newline_def)

lemma rfind_from_absent: "c \<notin> set p \<Longrightarrow> rfind_from c p i acc = acc"
  by (induction p arbitrary: i acc) auto

lemma rfind_from_append:
  "rfind_from c (p @ q) i acc = rfind_from c q (i + int (length p)) (rfind_from c p i acc)"
  by (induction p arbitrary: i acc) (auto simp: algebra_simps)

lemma rfind_from_bound: "acc < i + int (length p) \<Longrightarrow> rfind_from c p i acc < i + int (length p)"
proof (induction p arbitrary: i acc)
  case Nil
  then show ?case by simp
next
  case (Cons x xs)
  have "(if x = c then i else acc) < (i + 1) + int (length xs)"
    using Cons.prems by auto
  from Cons.IH[OF this] show ?case by simp
qed

lemma rfind_last: "c \<notin> set e \<Longrightarrow> rfind c (b @ c # e) = int (length b)"
  by (simp add: rfind_def rfind_from_append rfind_from_absent)

lemma rfind_other: "c \<notin> set e \<Longrightarrow> c \<noteq> d \<Longrightarrow> rfind c (b @ d # e) = rfind c b"
  by (simp add: rfind_def rfind_from_append rfind_from_absent)

lemma rfind_lt: "rfind c b < int (length b)"
  unfolding rfind_def using rfind_from_bound[of "-1" 0 b c] by simp

lemma rfind_ge: "- 1 \<le> rfind_from c p i acc" if "-1 \<le> acc" "0 \<le> i"
  using that by (induction p arbitrary: i acc) auto

lemma splitext_ext:
  assumes "slash \<notin> set e" "dot \<notin> set e"
      and "filter (\<lambda>x. x \<noteq> dot) (drop (nat (rfind slash b + 1)) b) \<noteq> []"
  shows "splitext (b @ dot # e) = (b, dot # e)"
proof -
  have d: "rfind dot (b @ dot # e) = int (length b)" using assms(2) by (rule rfind_last)
  have s: "rfind slash (b @ dot # e) = rfind slash b"
    using assms(1) by (rule rfind_other) (simp add: slash_def dot_def)
  have lt: "rfind slash b < int (length b)" by (rule rfind_lt)
  have ge: "-1 \<le> rfind slash b" unfolding rfind_def by (rule rfind_ge) auto
  have "take (nat (int (length b) - (rfind slash b + 1))) (drop (nat (rfind slash b + 1)) (b @ dot # e))
        = drop (nat (rfind slash b + 1)) b"
    using lt ge by (simp add: nat_diff_distrib)
  then show ?thesis using assms(3) lt by (simp add: splitext_def d s Let_def)
qed

lemma splitext_no_dot: "dot \<notin> set b \<Longrightarrow> splitext b = (b, [])"
proof -
  assume "dot \<notin> set b"
  then have d: "rfind dot b = -1" by (simp add: rfind_def rfind_from_absent)
  have "-1 \<le> rfind slash b" unfolding rfind_def by (rule rfind_ge) auto
  then show ?thesis by (simp add: splitext_def d Let_def)
qed

subsection \<open>Claim C3: the shape of the sanitizer's output\<close>

text \<open>
  C3. For every input string, every normalisation table and every random draw,
  \<open>_ascii_safe\<close> returns at most 40 characters, all of them in \<open>[a-z0-9-]\<close> (the
  fallback token included included), so none is a slash, a backslash or a dot.
  The extension is dropped: two names that differ only in the extension have the same
  output, and a name whose base has no dot has the output of its base.
\<close>
theorem ascii_safe_output:
  "length (ascii_safe nfkd u s) \<le> 40
   \<and> (\<forall>c \<in> set (ascii_safe nfkd u s). idchar c \<and> c \<noteq> slash \<and> c \<noteq> dot \<and> c \<noteq> 92)
   \<and> (slash \<notin> set e \<and> dot \<notin> set e \<and> slash \<notin> set e' \<and> dot \<notin> set e'
        \<and> filter (\<lambda>x. x \<noteq> dot) (drop (nat (rfind slash b + 1)) b) \<noteq> []
       \<longrightarrow> ascii_safe nfkd u (b @ dot # e) = ascii_safe nfkd u (b @ dot # e')
           \<and> (dot \<notin> set b \<longrightarrow> ascii_safe nfkd u (b @ dot # e) = ascii_safe nfkd u b))"
proof (intro conjI ballI impI)
  show "length (ascii_safe nfkd u s) \<le> 40" by (rule ascii_safe_length)
next
  fix c assume "c \<in> set (ascii_safe nfkd u s)"
  then have i: "idchar c" by (rule ascii_safe_idchar)
  from idchar_not_sep[OF i] i show "idchar c" "c \<noteq> slash" "c \<noteq> dot" "c \<noteq> 92" by auto
next
  assume h: "slash \<notin> set e \<and> dot \<notin> set e \<and> slash \<notin> set e' \<and> dot \<notin> set e'
        \<and> filter (\<lambda>x. x \<noteq> dot) (drop (nat (rfind slash b + 1)) b) \<noteq> []"
  then have 1: "splitext (b @ dot # e) = (b, dot # e)" by (intro splitext_ext) auto
  from h have 2: "splitext (b @ dot # e') = (b, dot # e')" by (intro splitext_ext) auto
  show "ascii_safe nfkd u (b @ dot # e) = ascii_safe nfkd u (b @ dot # e')"
    by (simp add: ascii_safe_def 1 2)
  assume "dot \<notin> set b"
  then have "splitext b = (b, [])" by (rule splitext_no_dot)
  then show "ascii_safe nfkd u (b @ dot # e) = ascii_safe nfkd u b"
    by (simp add: ascii_safe_def 1)
qed

lemmas ev = ascii_def startswith_def after_first_slash_def slash_def re_match_id_def idchar_def alnum_def dash_def newline_def dot_def

theorem ascii_safe_output_witness:
  "length (ascii_safe id 0 (ascii ''Cafe Nandu.txt'')) \<le> 40
   \<and> ascii_safe id 0 (ascii ''Cafe Nandu.txt'') = ascii ''cafe-nandu''
   \<and> ascii_safe id 0 (ascii ''Cafe Nandu.txt'') = ascii_safe id 0 (ascii ''Cafe Nandu.md'')
   \<and> ascii_safe id 0 (ascii ''Cafe Nandu.txt'') = ascii_safe id 0 (ascii ''Cafe Nandu'')"
proof -
  have v: "ascii_safe id 0 (ascii ''Cafe Nandu.txt'') = ascii ''cafe-nandu''" by code_simp
  have split: "ascii ''Cafe Nandu.txt'' = ascii ''Cafe Nandu'' @ dot # ascii ''txt''"
       "ascii ''Cafe Nandu.md'' = ascii ''Cafe Nandu'' @ dot # ascii ''md''"
    by (simp_all add: ascii_def dot_def)
  have h: "slash \<notin> set (ascii ''txt'') \<and> dot \<notin> set (ascii ''txt'') \<and> slash \<notin> set (ascii ''md'') \<and> dot \<notin> set (ascii ''md'')
        \<and> filter (\<lambda>x. x \<noteq> dot) (drop (nat (rfind slash (ascii ''Cafe Nandu'') + 1)) (ascii ''Cafe Nandu'')) \<noteq> []"
       "dot \<notin> set (ascii ''Cafe Nandu'')"
    by (simp_all add: ascii_def dot_def slash_def rfind_def)
  note T = ascii_safe_output[of id 0 "ascii ''Cafe Nandu.txt''" "ascii ''txt''" "ascii ''md''" "ascii ''Cafe Nandu''"]
  from T have len: "length (ascii_safe id 0 (ascii ''Cafe Nandu.txt'')) \<le> 40" by blast
  from T h have e1: "ascii_safe id 0 (ascii ''Cafe Nandu.txt'') = ascii_safe id 0 (ascii ''Cafe Nandu.md'')"
    unfolding split by blast
  from T h have e2: "ascii_safe id 0 (ascii ''Cafe Nandu.txt'') = ascii_safe id 0 (ascii ''Cafe Nandu'')"
    unfolding split by blast
  from len v e1 e2 show ?thesis by blast
qed

subsection \<open>Claim C7: two runs of the sanitizer\<close>

text \<open>
  C7 (counterexample). On the empty string the slug is empty and the output is the
  fallback token built from a fresh random identifier: two runs that draw the
  identifiers 0 and 1 return different outputs.
\<close>
theorem ascii_safe_two_runs_differ: "ascii_safe id 0 [] \<noteq> ascii_safe id 1 []"
  by code_simp

text \<open>
  C7 (amended). Whenever the slug of the base name is not empty, the output does not
  depend on the random draw: any two runs return the same string.
\<close>

theorem ascii_safe_deterministic:
  "slug_of nfkd (fst (splitext s)) \<noteq> [] \<Longrightarrow> ascii_safe nfkd u1 s = ascii_safe nfkd u2 s"
  by (simp add: ascii_safe_def)

theorem ascii_safe_deterministic_witness:
  "slug_of id (fst (splitext (ascii ''Cafe Nandu.txt''))) \<noteq> []
   \<and> ascii_safe id 0 (ascii ''Cafe Nandu.txt'') = ascii_safe id 1 (ascii ''Cafe Nandu.txt'')"
proof -
  have h: "slug_of id (fst (splitext (ascii ''Cafe Nandu.txt''))) \<noteq> []" by code_simp
  from ascii_safe_deterministic[OF h, of 0 1] h show ?thesis by simp
qed

subsection \<open>Claim C4: the identifier check\<close>

text \<open>
  C4. \<open>_is_valid_file_id\<close> at the failing input \<open>"files/abc\n"\<close>: the reference is
  accepted although the newline is outside \<open>[a-z0-9-]\<close>. The four examples of the claim
  behave as it says: \<open>"files/abc-123"\<close> is accepted, \<open>"files/"\<close>, an id of 41
  characters and \<open>"files/ABC"\<close> are rejected.
\<close>
theorem is_valid_file_id_trailing_newline:
  "is_valid_file_id (PStr (ascii ''files/abc'' @ [newline])) \<and> \<not> idchar newline
   \<and> is_valid_file_id (PStr (ascii ''files/abc-123''))
   \<and> \<not> is_valid_file_id (PStr (ascii ''files/''))
   \<and> \<not> is_valid_file_id (PStr (ascii ''files/'' @ replicate 41 97))
   \<and> \<not> is_valid_file_id (PStr (ascii ''files/ABC''))"
  by (simp add: ev)

lemma after_files: "after_first_slash (ascii ''files/'' @ i) = i"
  by (simp add: ascii_def after_first_slash_def slash_def)

lemma startswith_files: "startswith (ascii ''files/'' @ i) (ascii ''files/'')"
  by (simp add: ascii_def startswith_def)

lemma re_match_id_slash: "slash \<in> set i \<Longrightarrow> \<not> re_match_id i"
proof
  assume s: "slash \<in> set i" and m: "re_match_id i"
  have "\<not> idchar slash" by (simp add: idchar_def alnum_def slash_def dash_def)
  with s have "slash \<notin> set (takeWhile idchar i)" by (auto dest: set_takeWhileD)
  moreover have "set i = set (takeWhile idchar i) \<union> set (dropWhile idchar i)"
    by (metis set_append takeWhile_dropWhile_id)
  ultimately have r: "slash \<in> set (dropWhile idchar i)" using s by auto
  from m have "dropWhile idchar i = [] \<or> dropWhile idchar i = [newline]"
    by (simp add: re_match_id_def Let_def)
  then show False
  proof
    assume e: "dropWhile idchar i = []"
    from r show False unfolding e by simp
  next
    assume e: "dropWhile idchar i = [newline]"
    from r show False unfolding e by (simp add: slash_def newline_def)
  qed
qed

subsection \<open>Claim C10: non-strings and embedded slashes\<close>

text \<open>
  C10. \<open>_is_valid_file_id\<close> is false on every value that is not a string, and on every
  reference \<open>"files/" + i\<close> whose id portion \<open>i\<close> contains a slash.
\<close>
theorem is_valid_file_id_rejects:
  "((\<forall>s. v \<noteq> PStr s) \<longrightarrow> \<not> is_valid_file_id v)
   \<and> (slash \<in> set i \<longrightarrow> \<not> is_valid_file_id (PStr (ascii ''files/'' @ i)))"
proof (intro conjI impI)
  assume "\<forall>s. v \<noteq> PStr s" then show "\<not> is_valid_file_id v" by (cases v) auto
next
  assume "slash \<in> set i"
  then show "\<not> is_valid_file_id (PStr (ascii ''files/'' @ i))"
    using re_match_id_slash[of i] by (simp add: after_files startswith_files Let_def)
qed

theorem is_valid_file_id_rejects_witness:
  "\<not> is_valid_file_id (PBool True) \<and> \<not> is_valid_file_id (PStr (ascii ''files/abc/def''))"
proof -
  have a: "\<forall>s. PBool True \<noteq> PStr s" by simp
  have b: "slash \<in> set (ascii ''abc/def'')" by (simp add: ascii_def slash_def)
  have c: "ascii ''files/abc/def'' = ascii ''files/'' @ ascii ''abc/def''" by (simp add: ascii_def)
  from is_valid_file_id_rejects[of "PBool True" "ascii ''abc/def''"] a b show ?thesis
    unfolding c by blast
qed
section \<open>Properties of the ledger\<close>

lemma valid_truthy: "is_valid_file_id v \<Longrightarrow> truthy v"
  by (cases v) (auto simp: startswith_def ascii_def split: if_splits)

lemma entry_invalid_iff: "entry_invalid v \<longleftrightarrow> \<not> is_valid_file_id (dict_get v file_id_key)"
  unfolding entry_invalid_def Let_def using valid_truthy by blast

lemma clean_state_loop_eq:
  "clean_state_loop items st ch =
     (filter (\<lambda>(k, v). k \<notin> fst ` {kv \<in> set items. entry_invalid (snd kv)}) st,
      ch \<or> (\<exists>kv \<in> set items. entry_invalid (snd kv)))"
proof (induction items arbitrary: st ch)
  case Nil
  then show ?case by simp
next
  case (Cons a items)
  obtain k v where a: "a = (k, v)" by (cases a)
  show ?case
  proof (cases "entry_invalid v")
    case True
    have "filter (\<lambda>(k', v'). k' \<notin> fst ` {kv \<in> set items. entry_invalid (snd kv)}) (AList.delete k st)
        = filter (\<lambda>(k', v'). k' \<notin> fst ` {kv \<in> set (a # items). entry_invalid (snd kv)}) st"
      unfolding AList.delete_eq filter_filter using True a
      by (intro filter_cong) (auto simp: image_iff)
    then show ?thesis using True a Cons.IH by simp
  next
    case False
    have "{kv \<in> set (a # items). entry_invalid (snd kv)} = {kv \<in> set items. entry_invalid (snd kv)}"
      using False a by auto
    then show ?thesis using False a Cons.IH by simp
  qed
qed

lemma clean_state_loop_self:
  assumes "distinct (map fst st)"
  shows "clean_state_loop st st False =
           (filter (\<lambda>(k, v). \<not> entry_invalid v) st, \<exists>kv \<in> set st. entry_invalid (snd kv))"
proof -
  have "filter (\<lambda>(k, v). k \<notin> fst ` {kv \<in> set st. entry_invalid (snd kv)}) st
      = filter (\<lambda>(k, v). \<not> entry_invalid v) st"
  proof (rule filter_cong[OF refl])
    fix x assume x: "x \<in> set st"
    obtain k v where kv: "x = (k, v)" by (cases x)
    have "k \<in> fst ` {kv \<in> set st. entry_invalid (snd kv)} \<longleftrightarrow> entry_invalid v"
    proof
      assume "k \<in> fst ` {kv \<in> set st. entry_invalid (snd kv)}"
      then obtain v' where "(k, v') \<in> set st" "entry_invalid v'" by auto
      moreover from this(1) x kv assms have "v' = v"
        by (meson eq_key_imp_eq_value)
      ultimately show "entry_invalid v" by simp
    next
      assume "entry_invalid v"
      with x kv show "k \<in> fst ` {kv \<in> set st. entry_invalid (snd kv)}" by force
    qed
    then show "(case x of (k, v) \<Rightarrow> k \<notin> fst ` {kv \<in> set st. entry_invalid (snd kv)})
             = (case x of (k, v) \<Rightarrow> \<not> entry_invalid v)" using kv by simp
  qed
  then show ?thesis by (simp add: clean_state_loop_eq)
qed

lemma state_save_state: "state (snd (save_state w)) = state w"
  by (simp add: save_state_def emit_def Let_def)

subsection \<open>Claim C5: pruning removes exactly the invalid entries\<close>

text \<open>
  C5. For every ledger (a dict, so its keys are distinct), \<open>clean_state\<close> leaves
  exactly the entries whose \<open>file_id\<close> passes \<open>_is_valid_file_id\<close>, in their
  order; an empty or missing id fails that check, so those entries go as well. On a
  ledger with no invalid entry it returns without an exception and changes nothing:
  the ledger, the state file and the trace stay as they were, so nothing is written.
\<close>

theorem clean_state_prunes:
  assumes "distinct (map fst (state w))"
  shows "state (snd (clean_state w))
           = filter (\<lambda>(k, v). is_valid_file_id (dict_get v file_id_key)) (state w)
       \<and> ((\<forall>kv \<in> set (state w). is_valid_file_id (dict_get (snd kv) file_id_key))
            \<longrightarrow> clean_state w = (None, w))"
proof
  have f: "filter (\<lambda>(k, v). \<not> entry_invalid v) (state w)
         = filter (\<lambda>(k, v). is_valid_file_id (dict_get v file_id_key)) (state w)"
    by (simp add: entry_invalid_iff)
  show "state (snd (clean_state w))
           = filter (\<lambda>(k, v). is_valid_file_id (dict_get v file_id_key)) (state w)"
    using f by (simp add: clean_state_def clean_state_loop_self[OF assms] state_save_state)
  show "(\<forall>kv \<in> set (state w). is_valid_file_id (dict_get (snd kv) file_id_key))
            \<longrightarrow> clean_state w = (None, w)"
  proof
    assume a: "\<forall>kv \<in> set (state w). is_valid_file_id (dict_get (snd kv) file_id_key)"
    then have n: "\<not> (\<exists>kv \<in> set (state w). entry_invalid (snd kv))"
      by (simp add: entry_invalid_iff)
    from a have "filter (\<lambda>(k, v). \<not> entry_invalid v) (state w) = state w"
      by (auto simp: entry_invalid_iff intro!: filter_True)
    with n show "clean_state w = (None, w)"
      by (simp add: clean_state_def clean_state_loop_self[OF assms])
  qed
qed

lemma ledger3_valid:
  "filter (\<lambda>(k, v). is_valid_file_id (dict_get v file_id_key)) ledger3 = [ledger3 ! 2]"
  by (simp add: ledger3_def file_info_of_def dict_get_def file_id_key_def doc_def ev)

theorem clean_state_prunes_witness:
  "distinct (map fst ledger3)
   \<and> state (snd (clean_state (example_tool ledger3))) = [ledger3 ! 2]
   \<and> clean_state (example_tool [ledger3 ! 2]) = (None, example_tool [ledger3 ! 2])"
proof -
  have d: "distinct (map fst (state (example_tool ledger3)))"
    by (simp add: example_tool_def ledger3_def doc_def ascii_def)
  have d2: "distinct (map fst (state (example_tool [ledger3 ! 2])))"
    by (simp add: example_tool_def)
  have v: "\<forall>kv \<in> set (state (example_tool [ledger3 ! 2])). is_valid_file_id (dict_get (snd kv) file_id_key)"
    by (simp add: example_tool_def ledger3_def file_info_of_def dict_get_def file_id_key_def doc_def ev)
  from clean_state_prunes[OF d] have 1: "state (snd (clean_state (example_tool ledger3))) = [ledger3 ! 2]"
    by (simp add: example_tool_def ledger3_valid)
  from clean_state_prunes[OF d2] v have 2: "clean_state (example_tool [ledger3 ! 2]) = (None, example_tool [ledger3 ! 2])"
    by blast
  from d 1 2 show ?thesis by (simp add: example_tool_def)
qed

section \<open>Properties of uploading and importing\<close>

lemma state_get_update: "state_get (AList.update k v st) k = v"
  by (simp add: state_get_def update_conv')

lemma save_state_cases:
  "save_state w = (x, w') \<Longrightarrow> state w' = state w \<and> prefer_utf8 w' = prefer_utf8 w"
  by (auto simp: save_state_def emit_def Let_def split: if_splits)

subsection \<open>Claim C1: a cached entry is returned without an upload\<close>

text \<open>
  C1. When the ledger has an entry for the resolved path whose \<open>file_id\<close> is
  non-empty (every valid id is), \<open>upload_file\<close> returns that entry and leaves the
  tool as it was: no event is added to the trace, so the remote service is not
  contacted, and neither the ledger nor the state file changes. In particular, after a
  call that returned an entry with a non-empty id, a second call on the same path
  returns the same entry and changes nothing, whatever the environment would answer.
\<close>

theorem upload_file_cached:
  "(truthy (dict_get (state_get (state w) (p_resolved f)) file_id_key)
      \<longrightarrow> upload_file env w f = (Inr (state_get (state w) (p_resolved f)), w))
   \<and> (upload_file env w f = (Inr info, w1) \<and> truthy (dict_get info file_id_key)
      \<longrightarrow> upload_file env' w1 f = (Inr info, w1))"
proof (intro conjI impI)
  assume "truthy (dict_get (state_get (state w) (p_resolved f)) file_id_key)"
  then show "upload_file env w f = (Inr (state_get (state w) (p_resolved f)), w)"
    by (simp add: upload_file_def)
next
  assume a: "upload_file env w f = (Inr info, w1) \<and> truthy (dict_get info file_id_key)"
  have "state_get (state w1) (p_resolved f) = info"
  proof (cases "truthy (dict_get (state_get (state w) (p_resolved f)) file_id_key)")
    case True
    with a show ?thesis by (auto simp: upload_file_def)
  next
    case False
    with a show ?thesis
      by (auto simp: upload_file_def record_upload_def Let_def state_get_update
               split: prod.splits sum.splits option.splits dest!: save_state_cases)
  qed
  with a show "upload_file env' w1 f = (Inr info, w1)"
    by (simp add: upload_file_def)
qed
subsection \<open>What can be written to the state file\<close>

lemma utf8_encodable_append [simp]: "utf8_encodable (a @ b) \<longleftrightarrow> utf8_encodable a \<and> utf8_encodable b"
  by (simp add: utf8_encodable_def)

lemma utf8_encodable_Cons [simp]: "utf8_encodable (c # s) \<longleftrightarrow> \<not> (55296 \<le> c \<and> c \<le> 57343) \<and> utf8_encodable s"
  by (simp add: utf8_encodable_def)

lemma utf8_encodable_Nil [simp]: "utf8_encodable []"
  by (simp add: utf8_encodable_def)

lemma utf8_encodable_ascii [simp]: "utf8_encodable (ascii s)"
proof -
  have "\<And>c::char. (of_char c :: nat) < 256" by (simp add: of_char_def) 
  then have "\<forall>x \<in> set (ascii s). x < 256" by (auto simp: ascii_def)
  then show ?thesis unfolding utf8_encodable_def list_all_iff by fastforce
qed

lemma hexdigit_small: "hexdigit n < 128"
proof -
  have "n mod 16 < 16" by simp
  then show ?thesis unfolding hexdigit_def by auto
qed

lemma utf8_encodable_escape_char: "\<not> (55296 \<le> c \<and> c \<le> 57343) \<Longrightarrow> utf8_encodable (escape_char c)"
  using hexdigit_small[of c] hexdigit_small[of "c div 16"] by (simp add: escape_char_def)

lemma utf8_encodable_concat: "(\<And>x. x \<in> set xs \<Longrightarrow> utf8_encodable x) \<Longrightarrow> utf8_encodable (concat xs)"
  by (induction xs) auto

lemma utf8_encodable_basestring: "utf8_encodable s \<Longrightarrow> utf8_encodable (encode_basestring s)"
proof -
  assume s: "utf8_encodable s"
  have "utf8_encodable (concat (map escape_char s))"
  proof (rule utf8_encodable_concat)
    fix x assume "x \<in> set (map escape_char s)"
    then obtain c where c: "c \<in> set s" and x: "x = escape_char c" by auto
    from s c have "\<not> (55296 \<le> c \<and> c \<le> 57343)" by (simp add: utf8_encodable_def list_all_iff)
    then show "utf8_encodable x" unfolding x by (rule utf8_encodable_escape_char)
  qed
  then show ?thesis by (simp add: encode_basestring_def)
qed

lemma utf8_encodable_newline_indent [simp]: "utf8_encodable (newline_indent l)"
  by (simp add: newline_indent_def utf8_encodable_def list_all_iff newline_def)

lemma utf8_encodable_join:
  "utf8_encodable sep \<Longrightarrow> (\<And>x. x \<in> set xs \<Longrightarrow> utf8_encodable x) \<Longrightarrow> utf8_encodable (join sep xs)"
  by (induction sep xs rule: join.induct) auto

lemma dumps_at_encodable: "val_encodable v \<Longrightarrow> utf8_encodable (dumps_at l v)"
proof (induction l v rule: dumps_at.induct)
  case (4 level xs)
  show ?case
  proof (cases "xs = []")
    case True then show ?thesis by simp
  next
    case False
    have "utf8_encodable (join (44 # newline_indent (level + 1)) (map (dumps_at (level + 1)) xs))"
      using 4 False by (intro utf8_encodable_join) (auto simp: list_all_iff)
    with False show ?thesis by simp
  qed
next
  case (5 level kvs)
  show ?case
  proof (cases "kvs = []")
    case True then show ?thesis by simp
  next
    case False
    have "utf8_encodable (join (44 # newline_indent (level + 1))
               (map (\<lambda>(k, v). encode_basestring k @ [58, 32] @ dumps_at (level + 1) v) kvs))"
    proof (intro utf8_encodable_join)
      fix x assume "x \<in> set (map (\<lambda>(k, v). encode_basestring k @ [58, 32] @ dumps_at (level + 1) v) kvs)"
      then obtain k v where kv: "(k, v) \<in> set kvs" and x: "x = encode_basestring k @ [58, 32] @ dumps_at (level + 1) v"
        by auto
      from kv "5.prems" have "utf8_encodable k" "val_encodable v" by (auto simp: list_all_iff)
      with "5.IH"[OF False kv refl] show "utf8_encodable x"
        unfolding x by (simp add: utf8_encodable_basestring)
    qed simp
    with False show ?thesis by simp
  qed
qed (simp_all add: utf8_encodable_basestring)

lemma json_dumps_encodable: "ledger_encodable st \<Longrightarrow> utf8_encodable (json_dumps st)"
  by (simp add: json_dumps_def ledger_encodable_def dumps_at_encodable)

lemmas exs = example_tool_def example_env_def example_store_def doc_def refuse_def upload_ok_def
  pending_op_def import_pending_def get_done_def get_pending_def ledger3_def

lemma safe_d: "ascii_safe id 0 (ascii ''d.txt'') = ascii ''d''" by code_simp
lemma slug_d: "slug_of id (fst (splitext (ascii ''d.txt''))) \<noteq> []" by code_simp
lemma isascii_ascii: "isascii (ascii ''d.txt'')" by (simp add: isascii_def ascii_def)
lemma enc_d: "utf8_encodable (json_dumps [(k, file_info_of (ascii a) (ascii b) (ascii c))])" if "utf8_encodable k"
  using that by (intro json_dumps_encodable) (simp add: ledger_encodable_def ledger_value_def file_info_of_def)

lemma up1: "fst (upload_file (example_env None upload_ok refuse refuse) (example_tool []) (doc ''d.txt''))
      = Inr (file_info_of (ascii ''files/up-1'') (ascii ''d.txt'') (ascii ''d''))"
  using safe_d slug_d isascii_ascii enc_d[of "ascii ''/home/u/docs/'' @ ascii ''d.txt''"]
  by (simp add: upload_file_def upload_with_fallback_def record_upload_def exs state_get_def dict_get_def
       ascii_safe_call_def try_upload_with_name_def save_state_def emit_def Let_def)

theorem upload_file_cached_witness:
  "upload_file (example_env None refuse refuse refuse) (example_tool [ledger3 ! 2]) (doc ''c.txt'')
     = (Inr (snd (ledger3 ! 2)), example_tool [ledger3 ! 2])
   \<and> fst (upload_file (example_env None upload_ok refuse refuse) (example_tool []) (doc ''d.txt''))
       = Inr (file_info_of (ascii ''files/up-1'') (ascii ''d.txt'') (ascii ''d''))
   \<and> upload_file (example_env None refuse refuse refuse)
        (snd (upload_file (example_env None upload_ok refuse refuse) (example_tool []) (doc ''d.txt'')))
        (doc ''d.txt'')
       = (Inr (file_info_of (ascii ''files/up-1'') (ascii ''d.txt'') (ascii ''d'')),
          snd (upload_file (example_env None upload_ok refuse refuse) (example_tool []) (doc ''d.txt'')))"
proof -
  let ?E = "example_env None refuse refuse refuse"
  let ?E2 = "example_env None upload_ok refuse refuse"
  let ?w = "example_tool [ledger3 ! 2]"
  let ?info = "file_info_of (ascii ''files/up-1'') (ascii ''d.txt'') (ascii ''d'')"
  have g: "state_get (state ?w) (p_resolved (doc ''c.txt'')) = snd (ledger3 ! 2)"
    by (simp add: exs state_get_def)
  have t: "truthy (dict_get (state_get (state ?w) (p_resolved (doc ''c.txt''))) file_id_key)"
    unfolding g by (simp add: exs file_info_of_def dict_get_def file_id_key_def ascii_def)
  have 1: "upload_file ?E ?w (doc ''c.txt'') = (Inr (snd (ledger3 ! 2)), ?w)"
    using upload_file_cached[of ?w "doc ''c.txt''" ?E] t g by simp
  have u: "fst (upload_file ?E2 (example_tool []) (doc ''d.txt'')) = Inr ?info" by (rule up1)
  then have u': "upload_file ?E2 (example_tool []) (doc ''d.txt'')
        = (Inr ?info, snd (upload_file ?E2 (example_tool []) (doc ''d.txt'')))"
    by (metis prod.collapse)
  have t2: "truthy (dict_get ?info file_id_key)"
    by (simp add: file_info_of_def dict_get_def file_id_key_def ascii_def)
  have 2: "upload_file ?E (snd (upload_file ?E2 (example_tool []) (doc ''d.txt''))) (doc ''d.txt'')
        = (Inr ?info, snd (upload_file ?E2 (example_tool []) (doc ''d.txt'')))"
    using upload_file_cached[of "example_tool []" "doc ''d.txt''" ?E2 ?info
        "snd (upload_file ?E2 (example_tool []) (doc ''d.txt''))" ?E] u' t2 by blast
  from 1 u 2 show ?thesis by blast
qed

subsection \<open>Claim C2: the results of an import\<close>

lemma spec_id_syntax_valid:
  "spec_id_syntax i \<Longrightarrow> is_valid_file_id (PStr (ascii ''files/'' @ i))"
proof -
  assume s: "spec_id_syntax i"
  then have a: "\<forall>x \<in> set i. idchar x" by (simp add: spec_id_syntax_def list_all_iff)
  then have tw: "takeWhile idchar i = i" and dw: "dropWhile idchar i = []" by auto
  from s have ne: "i \<noteq> []" and len: "length i \<le> 40" by (auto simp: spec_id_syntax_def)
  have "re_match_id i" unfolding re_match_id_def Let_def tw dw using ne by simp
  with ne len show ?thesis by (simp add: after_files startswith_files)
qed

lemma valid_no_newline_spec:
  assumes "is_valid_file_id (PStr r)" "last r \<noteq> newline"
  shows "spec_id_syntax (after_first_slash r)"
proof -
  let ?i = "after_first_slash r"
  from assms(1) have p: "startswith r (ascii ''files/'')" and ne: "?i \<noteq> []" and len: "length ?i \<le> 40"
    and m: "re_match_id ?i"
    by (auto simp: Let_def split: if_splits)
  from p have "take (length (ascii ''files/'')) r = ascii ''files/''" by (simp add: startswith_def)
  moreover have "length (ascii ''files/'') = 6" by (simp add: ascii_def)
  ultimately have "take 6 r = ascii ''files/''" by simp
  then have r: "r = ascii ''files/'' @ drop 6 r" by (metis append_take_drop_id)
  have i: "?i = drop 6 r" by (subst r) (simp add: after_files)
  from m have "dropWhile idchar ?i = [] \<or> dropWhile idchar ?i = [newline]"
    by (simp add: re_match_id_def Let_def)
  then have "dropWhile idchar ?i = []"
  proof
    assume "dropWhile idchar ?i = [newline]"
    then have "?i = takeWhile idchar ?i @ [newline]" by (metis takeWhile_dropWhile_id)
    then have "last ?i = newline" by (metis last_snoc)
    moreover have "last r = last ?i" using ne r i by (metis last_appendR)
    ultimately show ?thesis using assms(2) by simp
  qed simp
  then have "\<forall>x \<in> set ?i. idchar x" by (simp add: dropWhile_eq_Nil_conv)
  with ne len show ?thesis by (simp add: spec_id_syntax_def list_all_iff Suc_leI)
qed

lemma last_normalize_ref: "file_name \<noteq> [] \<Longrightarrow> last (normalize_ref file_name) = last file_name"
  by (simp add: normalize_ref_def)

text \<open>
  C2 (counterexample). The import request for \<open>"files/abc-123"\<close> returns an operation
  that is not done, and the first poll \<open>client.operations.get\<close> raises. The poll is
  outside the \<open>try\<close> block: the exception leaves \<open>import_file_to_store\<close>.
\<close>

theorem import_pending_raises:
  "map_option fst (import_file_to_store (example_env None refuse import_pending refuse) (example_tool [])
       (s_name example_store) (ascii ''files/abc-123''))
     = Some (Inl (Exception (ascii ''UNAVAILABLE'')))"
  apply (simp add: import_file_to_store_def normalize_ref_def exs emit_def ev Let_def)
  apply (subst wait_for_import.simps)
  apply (simp add: emit_def)
  done

text \<open>
  C2 (amended). For every store name and identifier: an empty identifier, or one whose
  normalised reference \<open>_is_valid_file_id\<close> rejects, returns \<open>None\<close> with the tool
  unchanged, so no remote call is issued; this covers every identifier that does not
  end in a newline and whose id portion is not 1 to 40 characters of \<open>[a-z0-9-]\<close>.
  When the import request raises, the function returns \<open>None\<close> after that one request
  and the exception does not propagate.
\<close>

theorem import_file_to_store_results:
  "(file_name = [] \<or> \<not> is_valid_file_id (PStr (normalize_ref file_name))
      \<longrightarrow> import_file_to_store env w store_name file_name = Some (Inr None, w))
   \<and> (file_name \<noteq> [] \<and> last file_name \<noteq> newline
        \<and> \<not> spec_id_syntax (after_first_slash (normalize_ref file_name))
      \<longrightarrow> import_file_to_store env w store_name file_name = Some (Inr None, w))
   \<and> (file_name \<noteq> [] \<and> is_valid_file_id (PStr (normalize_ref file_name))
        \<and> e_import_file env (trace w) store_name (normalize_ref file_name) = Inl e
      \<longrightarrow> import_file_to_store env w store_name file_name
            = Some (Inr None, emit (ImportFile store_name (normalize_ref file_name)) w))"
proof (intro conjI impI)
  assume "file_name = [] \<or> \<not> is_valid_file_id (PStr (normalize_ref file_name))"
  then show "import_file_to_store env w store_name file_name = Some (Inr None, w)"
    by (auto simp add: import_file_to_store_def Let_def simp del: is_valid_file_id.simps)
next
  assume a: "file_name \<noteq> [] \<and> last file_name \<noteq> newline
        \<and> \<not> spec_id_syntax (after_first_slash (normalize_ref file_name))"
  have "\<not> is_valid_file_id (PStr (normalize_ref file_name))"
  proof
    assume v: "is_valid_file_id (PStr (normalize_ref file_name))"
    from a have "last (normalize_ref file_name) \<noteq> newline" by (simp add: last_normalize_ref)
    from valid_no_newline_spec[OF v this] a show False by simp
  qed
  then show "import_file_to_store env w store_name file_name = Some (Inr None, w)"
    by (auto simp add: import_file_to_store_def Let_def simp del: is_valid_file_id.simps)
next
  assume "file_name \<noteq> [] \<and> is_valid_file_id (PStr (normalize_ref file_name))
        \<and> e_import_file env (trace w) store_name (normalize_ref file_name) = Inl e"
  then show "import_file_to_store env w store_name file_name
            = Some (Inr None, emit (ImportFile store_name (normalize_ref file_name)) w)"
    by (auto simp add: import_file_to_store_def Let_def simp del: is_valid_file_id.simps)
qed

theorem import_file_to_store_results_witness:
  "import_file_to_store (example_env None refuse refuse refuse) (example_tool []) (s_name example_store) []
     = Some (Inr None, example_tool [])
   \<and> import_file_to_store (example_env None refuse refuse refuse) (example_tool []) (s_name example_store) (ascii ''ABC'')
     = Some (Inr None, example_tool [])
   \<and> import_file_to_store (example_env None refuse refuse refuse) (example_tool []) (s_name example_store) (ascii ''abc-123'')
     = Some (Inr None, emit (ImportFile (s_name example_store) (ascii ''files/abc-123'')) (example_tool []))"
proof -
  let ?E = "example_env None refuse refuse refuse"
  let ?w = "example_tool []"
  let ?s = "s_name example_store"
  note T = import_file_to_store_results[of _ ?E ?w ?s]
  have 1: "import_file_to_store ?E ?w ?s [] = Some (Inr None, ?w)"
    using T[of "[]"] by simp
  have h2: "ascii ''ABC'' \<noteq> [] \<and> last (ascii ''ABC'') \<noteq> newline
        \<and> \<not> spec_id_syntax (after_first_slash (normalize_ref (ascii ''ABC'')))"
    by (simp add: normalize_ref_def spec_id_syntax_def ev)
  have 2: "import_file_to_store ?E ?w ?s (ascii ''ABC'') = Some (Inr None, ?w)"
    using T[of "ascii ''ABC''"] h2 by blast
  have n3: "normalize_ref (ascii ''abc-123'') = ascii ''files/abc-123''"
    by (simp add: normalize_ref_def ev)
  have h3: "ascii ''abc-123'' \<noteq> [] \<and> is_valid_file_id (PStr (normalize_ref (ascii ''abc-123'')))
        \<and> e_import_file ?E (trace ?w) ?s (normalize_ref (ascii ''abc-123'')) = Inl (Exception (ascii ''UNAVAILABLE''))"
    unfolding n3 by (simp add: exs ev)
  have 3: "import_file_to_store ?E ?w ?s (ascii ''abc-123'')
     = Some (Inr None, emit (ImportFile ?s (ascii ''files/abc-123'')) ?w)"
    using T[of "ascii ''abc-123''" "Exception (ascii ''UNAVAILABLE'')"] h3 unfolding n3 by blast
  from 1 2 3 show ?thesis by blast
qed
section \<open>Properties of the batch driver\<close>

subsection \<open>The trace only grows\<close>

lemma suffix_emit: "suffix (trace w) (trace (emit ev w))"
  by (simp add: emit_def suffix_ConsI)

lemma state_emit [simp]: "state (emit ev w) = state w"
  by (simp add: emit_def)

lemma trace_emit [simp]: "trace (emit ev w) = ev # trace w"
  by (simp add: emit_def)

lemma save_state_trace: "save_state w = (x, w') \<Longrightarrow> suffix (trace w) (trace w')"
  by (auto simp: save_state_def Let_def suffix_ConsI split: if_splits)

lemma clean_state_trace: "clean_state w = (x, w') \<Longrightarrow> suffix (trace w) (trace w')"
  by (auto simp: clean_state_def split: prod.splits if_splits dest!: save_state_trace)

lemma ascii_safe_call_same:
  "ascii_safe_call env w s = (n, w') \<Longrightarrow> trace w' = trace w \<and> state w' = state w \<and> prefer_utf8 w' = prefer_utf8 w"
  by (auto simp: ascii_safe_call_def split: if_splits)

lemma try_upload_trace:
  "try_upload_with_name env w f name = (r, w') \<Longrightarrow>
     suffix (trace w) (trace w') \<and> state w' = state w \<and> upload_attempted f (trace w')"
  by (auto simp: try_upload_with_name_def Let_def upload_attempted_def suffix_ConsI
           split: if_splits option.splits)

lemma upload_attempted_suffix: "suffix tr tr' \<Longrightarrow> upload_attempted f tr \<Longrightarrow> upload_attempted f tr'"
  unfolding upload_attempted_def list_ex_iff using set_mono_suffix by blast

lemma upload_with_fallback_trace:
  assumes "upload_with_fallback env w f n = (r, w')"
  shows "suffix (trace w) (trace w') \<and> state w' = state w \<and> upload_attempted f (trace w')"
proof (cases "prefer_utf8 w")
  case False
  with assms show ?thesis using try_upload_trace by (simp add: upload_with_fallback_def)
next
  case True
  obtain r1 w2 where t1: "try_upload_with_name env w f (p_name f) = (r1, w2)" by (cases "try_upload_with_name env w f (p_name f)")
  note s1 = try_upload_trace[OF t1]
  show ?thesis
  proof (cases r1)
    case (Inr res)
    with True assms t1 have "w' = w2" by (simp add: upload_with_fallback_def)
    with s1 show ?thesis by simp
  next
    case (Inl e)
    with True assms t1 have "try_upload_with_name env w2 f n = (r, w')" by (simp add: upload_with_fallback_def)
    note s2 = try_upload_trace[OF this]
    from s1 s2 have "suffix (trace w) (trace w')" by (meson suffix_order.trans)
    with s1 s2 show ?thesis by simp
  qed
qed

lemma record_upload_trace:
  assumes "record_upload w f res n = (r, w')"
  shows "suffix (trace w) (trace w')"
proof -
  let ?w = "w\<lparr>state := AList.update (p_resolved f) (file_info_of res (p_name f) n) (state w)\<rparr>"
  obtain x w4 where s: "save_state ?w = (x, w4)" by (cases "save_state ?w")
  from save_state_trace[OF s] have "suffix (trace w) (trace w4)" by simp
  moreover from assms s have "w' = w4" by (cases x) (simp_all add: record_upload_def Let_def)
  ultimately show ?thesis by simp
qed

lemma upload_file_trace:
  assumes "upload_file env w f = (r, w')"
  shows "suffix (trace w) (trace w') \<and> (cached w f \<or> upload_attempted f (trace w'))"
proof (cases "cached w f")
  case True
  with assms show ?thesis by (simp add: upload_file_def cached_def)
next
  case False
  obtain n w1 where a: "ascii_safe_call env w (p_name f) = (n, w1)" by (cases "ascii_safe_call env w (p_name f)")
  note a1 = ascii_safe_call_same[OF a]
  obtain r2 w3 where t: "upload_with_fallback env w1 f n = (r2, w3)" by (cases "upload_with_fallback env w1 f n")
  note t3 = upload_with_fallback_trace[OF t]
  have "suffix (trace w3) (trace w')"
  proof (cases r2)
    case (Inl e)
    with assms False a t have "w' = w3" by (simp add: upload_file_def cached_def)
    then show ?thesis by simp
  next
    case (Inr res)
    with assms False a t have "record_upload w3 f res n = (r, w')" by (simp add: upload_file_def cached_def)
    then show ?thesis by (rule record_upload_trace)
  qed
  with t3 a1 have "suffix (trace w) (trace w')" by (metis suffix_order.trans)
  moreover have "upload_attempted f (trace w')"
    using t3 \<open>suffix (trace w3) (trace w')\<close> upload_attempted_suffix by blast
  ultimately show ?thesis by simp
qed

lemma wait_for_import_trace:
  assumes "wait_for_import env w op = Some y"
  shows "suffix (trace w) (trace (snd y)) \<and> state (snd y) = state w"
proof (rule wait_for_import.raw_induct[where P = "\<lambda>env w op y. suffix (trace w) (trace (snd y)) \<and> state (snd y) = state w", OF _ assms])
  fix wait :: "env \<Rightarrow> tool \<Rightarrow> operation \<Rightarrow> ((exn + operation) \<times> tool) option"
  fix env w op y
  assume IH: "\<And>env w op y. wait env w op = Some y \<Longrightarrow> suffix (trace w) (trace (snd y)) \<and> state (snd y) = state w"
  assume body: "(if op_done op then Some (Inr op, w)
      else case e_operations_get env (trace w) op of
           Inl e \<Rightarrow> Some (Inl e, emit (GetOperation op) w)
           | Inr op' \<Rightarrow> wait env (emit (GetOperation op) w) op') = Some y"
  show "suffix (trace w) (trace (snd y)) \<and> state (snd y) = state w"
  proof (cases "op_done op")
    case True
    with body show ?thesis by auto
  next
    case False
    show ?thesis
    proof (cases "e_operations_get env (trace w) op")
      case (Inl e)
      with False body show ?thesis by (auto simp: suffix_ConsI)
    next
      case (Inr op')
      with False body have "wait env (emit (GetOperation op) w) op' = Some y" by simp
      from IH[OF this] show ?thesis by (auto dest: suffix_ConsD)
    qed
  qed
qed

lemma wait_for_import_finishes:
  "finishes n env w op \<Longrightarrow> \<exists>y. wait_for_import env w op = Some y"
proof (induction n arbitrary: w op)
  case 0
  then show ?case by (subst wait_for_import.simps) simp
next
  case (Suc n)
  show ?case
  proof (cases "op_done op")
    case True
    then show ?thesis by (subst wait_for_import.simps) simp
  next
    case False
    show ?thesis
    proof (cases "e_operations_get env (trace w) op")
      case (Inl e)
      with False show ?thesis by (subst wait_for_import.simps) simp
    next
      case (Inr op')
      with False Suc.prems have "finishes n env (emit (GetOperation op) w) op'" by simp
      from Suc.IH[OF this] Inr False show ?thesis by (subst wait_for_import.simps) simp
    qed
  qed
qed

lemma wait_for_import_stuck:
  assumes "wait_for_import env w op = Some y"
  shows "(\<forall>tr p. e_operations_get env tr p = Inr p) \<longrightarrow> op_done op"
proof (rule wait_for_import.raw_induct[where P = "\<lambda>env w op y. (\<forall>tr p. e_operations_get env tr p = Inr p) \<longrightarrow> op_done op", OF _ assms])
  fix wait :: "env \<Rightarrow> tool \<Rightarrow> operation \<Rightarrow> ((exn + operation) \<times> tool) option"
  fix env w op y
  assume IH: "\<And>env w op y. wait env w op = Some y \<Longrightarrow> (\<forall>tr p. e_operations_get env tr p = Inr p) \<longrightarrow> op_done op"
  assume body: "(if op_done op then Some (Inr op, w)
      else case e_operations_get env (trace w) op of
           Inl e \<Rightarrow> Some (Inl e, emit (GetOperation op) w)
           | Inr op' \<Rightarrow> wait env (emit (GetOperation op) w) op') = Some y"
  show "(\<forall>tr p. e_operations_get env tr p = Inr p) \<longrightarrow> op_done op"
  proof (intro impI, rule ccontr)
    assume g: "\<forall>tr p. e_operations_get env tr p = Inr p" and n: "\<not> op_done op"
    with body have "wait env (emit (GetOperation op) w) op = Some y" by simp
    from IH[OF this] g n show False by simp
  qed
qed

declare is_valid_file_id.simps [simp del]

lemma import_skip:
  "s = [] \<or> \<not> is_valid_file_id (PStr (normalize_ref s)) \<Longrightarrow>
     import_file_to_store env w sn s = Some (Inr None, w)"
  by (auto simp: import_file_to_store_def Let_def)

lemma import_go:
  "s \<noteq> [] \<Longrightarrow> is_valid_file_id (PStr (normalize_ref s)) \<Longrightarrow>
     import_file_to_store env w sn s =
       (case e_import_file env (trace w) sn (normalize_ref s) of
          Inl e \<Rightarrow> Some (Inr None, emit (ImportFile sn (normalize_ref s)) w)
        | Inr op \<Rightarrow>
            (case wait_for_import env (emit (ImportFile sn (normalize_ref s)) w) op of
               None \<Rightarrow> None
             | Some (Inl e, w2) \<Rightarrow> Some (Inl e, w2)
             | Some (Inr op', w2) \<Rightarrow> Some (Inr (Some op'), w2)))"
  by (simp add: import_file_to_store_def Let_def)

lemma import_total:
  assumes "\<forall>v op. \<exists>n. finishes n env v op"
  shows "\<exists>y. import_file_to_store env w sn s = Some y"
proof (cases "s = [] \<or> \<not> is_valid_file_id (PStr (normalize_ref s))")
  case True
  then show ?thesis by (simp add: import_skip)
next
  case False
  then have go: "s \<noteq> []" "is_valid_file_id (PStr (normalize_ref s))" by simp_all
  show ?thesis
  proof (cases "e_import_file env (trace w) sn (normalize_ref s)")
    case (Inl e)
    then show ?thesis by (simp add: import_go[OF go])
  next
    case (Inr op)
    from assms obtain n where "finishes n env (emit (ImportFile sn (normalize_ref s)) w) op" by blast
    from wait_for_import_finishes[OF this] obtain r w2 where
      "wait_for_import env (emit (ImportFile sn (normalize_ref s)) w) op = Some (r, w2)" by force
    with Inr show ?thesis
      by (cases r) (simp_all add: import_go[OF go])
  qed
qed

lemma import_trace:
  assumes "import_file_to_store env w sn s = Some (r, w')"
  shows "suffix (trace w) (trace w') \<and> state w' = state w
         \<and> (s \<noteq> [] \<and> is_valid_file_id (PStr (normalize_ref s))
              \<longrightarrow> ImportFile sn (normalize_ref s) \<in> set (trace w'))"
proof (cases "s = [] \<or> \<not> is_valid_file_id (PStr (normalize_ref s))")
  case True
  with assms have "w' = w" by (simp add: import_skip)
  with True show ?thesis by auto
next
  case False
  then have go: "s \<noteq> []" "is_valid_file_id (PStr (normalize_ref s))" by simp_all
  let ?w1 = "emit (ImportFile sn (normalize_ref s)) w"
  have "suffix (trace ?w1) (trace w') \<and> state w' = state w"
  proof (cases "e_import_file env (trace w) sn (normalize_ref s)")
    case (Inl e)
    with assms have "w' = ?w1" by (simp add: import_go[OF go])
    then show ?thesis by simp
  next
    case (Inr op)
    with assms obtain r2 where "wait_for_import env ?w1 op = Some (r2, w')"
      by (auto simp add: import_go[OF go] split: option.splits sum.splits prod.splits)
    from wait_for_import_trace[OF this] show ?thesis by simp
  qed
  then have s: "suffix (ImportFile sn (normalize_ref s) # trace w) (trace w')" and st: "state w' = state w"
    by simp_all
  from s have "suffix (trace w) (trace w')" by (rule suffix_ConsD)
  moreover from s have "ImportFile sn (normalize_ref s) \<in> set (trace w')"
    using set_mono_suffix by fastforce
  ultimately show ?thesis using st by simp
qed

lemma prepare_file_total:
  assumes "\<forall>v op. \<exists>n. finishes n env v op"
  shows "\<exists>w'. prepare_file env sn w f = Some w'"
proof -
  obtain r w1 where u: "upload_file env w f = (r, w1)" by (cases "upload_file env w f")
  show ?thesis
  proof (cases r)
    case (Inl e)
    with u show ?thesis by (simp add: prepare_file_def)
  next
    case (Inr info)
    show ?thesis
    proof (cases "dict_get info file_id_key")
      case (PStr s)
      from import_total[OF assms, of w1 sn s] obtain y where "import_file_to_store env w1 sn s = Some y" by blast
      with u Inr PStr show ?thesis by (cases y) (simp add: prepare_file_def)
    qed (use u Inr in \<open>simp_all add: prepare_file_def\<close>)
  qed
qed

lemma prepare_file_trace:
  assumes "prepare_file env sn w f = Some w'"
  shows "suffix (trace w) (trace w') \<and> (cached w f \<or> upload_attempted f (trace w'))
         \<and> (\<forall>info u s. upload_file env w f = (Inr info, u) \<and> dict_get info file_id_key = PStr s
                \<and> s \<noteq> [] \<and> is_valid_file_id (PStr (normalize_ref s))
              \<longrightarrow> ImportFile sn (normalize_ref s) \<in> set (trace w'))"
proof -
  obtain r w1 where u: "upload_file env w f = (r, w1)" by (cases "upload_file env w f")
  note ut = upload_file_trace[OF u]
  have a: "suffix (trace w1) (trace w')
        \<and> (\<forall>info s. r = Inr info \<and> dict_get info file_id_key = PStr s
                \<and> s \<noteq> [] \<and> is_valid_file_id (PStr (normalize_ref s))
              \<longrightarrow> ImportFile sn (normalize_ref s) \<in> set (trace w'))"
  proof (cases r)
    case (Inl e)
    with u assms show ?thesis by (simp add: prepare_file_def)
  next
    case (Inr info)
    show ?thesis
    proof (cases "dict_get info file_id_key")
      case (PStr s)
      show ?thesis
      proof (cases "s = []")
        case True
        with u Inr PStr assms show ?thesis by (simp add: prepare_file_def)
      next
        case False
        then have "info \<noteq> []" using PStr by (auto simp: dict_get_def)
        with u Inr PStr False assms obtain r2 where "import_file_to_store env w1 sn s = Some (r2, w')"
          by (auto simp: prepare_file_def split: option.splits)
        from import_trace[OF this] Inr PStr show ?thesis by simp
      qed
    qed (use u Inr assms in \<open>auto simp: prepare_file_def split: if_splits\<close>)
  qed
  from a ut have "suffix (trace w) (trace w')" by (meson suffix_order.trans)
  moreover from a ut have "cached w f \<or> upload_attempted f (trace w')"
    using upload_attempted_suffix by blast
  ultimately show ?thesis using a u by auto
qed

lemma prepare_loop_trace:
  "prepare_loop env sn w fs = Some w' \<Longrightarrow> suffix (trace w) (trace w')"
proof (induction fs arbitrary: w)
  case Nil
  then show ?case by simp
next
  case (Cons f fs)
  then obtain v where p: "prepare_file env sn w f = Some v" and l: "prepare_loop env sn v fs = Some w'"
    by (auto split: option.splits)
  from prepare_file_trace[OF p] Cons.IH[OF l] show ?case by (meson suffix_order.trans)
qed

lemma wait_for_import_none:
  assumes "\<forall>tr p. e_operations_get env tr p = Inr p" "\<not> op_done op"
  shows "wait_for_import env w op = None"
proof (cases "wait_for_import env w op")
  case (Some y)
  from wait_for_import_stuck[OF Some] assms show ?thesis by simp
qed simp

lemma slug_store: "slug_of id (fst (splitext (ascii ''docs-file-search''))) \<noteq> []" by code_simp
lemma slug_a: "slug_of id (fst (splitext (ascii ''a.txt''))) \<noteq> []" by code_simp

lemma resolve_example:
  "create_or_get_file_search_store (example_env d u i g) (example_tool st)
     = (Inr example_store, emit ListStores (example_tool st))"
  using slug_store
  by (simp add: create_or_get_file_search_store_def example_env_def example_tool_def example_store_def
        ascii_safe_call_def emit_def)

lemma valid_abc: "is_valid_file_id (PStr (ascii ''files/abc-123''))"
  by (simp add: is_valid_file_id.simps ev)

lemma clean_example:
  "state w = [ledger3 ! 2] \<Longrightarrow> clean_state w = (None, w)"
  using valid_abc
  by (simp add: clean_state_def entry_invalid_def ledger3_def file_info_of_def dict_get_def file_id_key_def ascii_def)

lemma prepare_file_a:
  assumes "state w = [ledger3 ! 2]" "\<not> prefer_utf8 w"
  shows "\<exists>w'. prepare_file (example_env d refuse i g) sn w (doc ''a.txt'') = Some w'
            \<and> state w' = state w"
proof -
  have nc: "\<not> truthy (dict_get (state_get (state w) (p_resolved (doc ''a.txt''))) file_id_key)"
    using assms(1) by (simp add: ledger3_def doc_def state_get_def dict_get_def ascii_def)
  have ia: "isascii (p_name (doc ''a.txt''))" by (simp add: doc_def isascii_def ascii_def)
  show ?thesis
    using nc ia assms(2) slug_a
    by (simp add: prepare_file_def upload_file_def ascii_safe_call_def upload_with_fallback_def
          try_upload_with_name_def example_env_def refuse_def doc_def emit_def)
qed

lemma prepare_file_c:
  assumes "state w = [ledger3 ! 2]"
  shows "prepare_file (example_env d u import_pending get_pending) sn w (doc ''c.txt'') = None"
proof -
  let ?E = "example_env d u import_pending get_pending"
  have c: "state_get (state w) (p_resolved (doc ''c.txt'')) = snd (ledger3 ! 2)"
    using assms by (simp add: ledger3_def doc_def state_get_def)
  have g: "dict_get (snd (ledger3 ! 2)) file_id_key = PStr (ascii ''files/abc-123'')"
    by (simp add: ledger3_def file_info_of_def dict_get_def file_id_key_def)
  have u: "upload_file ?E w (doc ''c.txt'') = (Inr (snd (ledger3 ! 2)), w)"
    by (simp add: upload_file_def c g ascii_def)
  have n: "normalize_ref (ascii ''files/abc-123'') = ascii ''files/abc-123''"
    by (simp add: normalize_ref_def startswith_def ascii_def)
  have st: "\<forall>tr p. e_operations_get ?E tr p = Inr p"
    by (simp add: example_env_def get_pending_def)
  have v: "is_valid_file_id (PStr (normalize_ref (ascii ''files/abc-123'')))"
    unfolding n by (rule valid_abc)
  have nn: "ascii ''files/abc-123'' \<noteq> []" by (simp add: ascii_def)
  have imp: "e_import_file ?E (trace w) sn (normalize_ref (ascii ''files/abc-123'')) = Inr pending_op"
    by (simp add: example_env_def import_pending_def)
  have nd: "\<not> op_done pending_op" by (simp add: pending_op_def)
  have i: "import_file_to_store ?E w sn (ascii ''files/abc-123'') = None"
    unfolding import_go[OF nn v] by (simp add: imp wait_for_import_none[OF st nd])
  have ne: "snd (ledger3 ! 2) \<noteq> []" by (simp add: ledger3_def file_info_of_def)
  show ?thesis using ne nn by (simp add: prepare_file_def u g i)
qed

lemma d_ex: "list_docs (example_env (Some fs) u i g) = Inr fs"
  by (simp add: list_docs_def example_env_def)

lemma prepare_unfold:
  assumes "create_or_get_file_search_store env w = (Inr store, w1)"
      and "list_docs env = Inr (f # fs)"
      and "clean_state w1 = (None, w1)"
  shows "prepare env w = (case prepare_loop env (s_name store) w1 (f # fs) of
           None \<Rightarrow> None | Some w3 \<Rightarrow> Some (Inr store, w3))"
  using assms by (simp add: prepare_def del: prepare_loop.simps)

lemma loop_two:
  assumes "prepare_file env sn w f = Some w2" "prepare_file env sn w2 g = None"
  shows "prepare_loop env sn w [f, g] = None"
  using assms by simp

subsection \<open>Where the ids of import requests come from\<close>

lemma uploaded_ids_Cons: "set (uploaded_ids env tr) \<subseteq> set (uploaded_ids env (ev # tr))"
  by (cases ev) (auto split: sum.splits)

lemma uploaded_ids_suffix: "suffix tr tr' \<Longrightarrow> set (uploaded_ids env tr) \<subseteq> set (uploaded_ids env tr')"
proof -
  assume "suffix tr tr'"
  then obtain xs where "tr' = xs @ tr" by (auto simp: suffix_def)
  then show ?thesis using uploaded_ids_Cons by (induction xs arbitrary: tr') (auto, blast)
qed

lemma good_id_suffix: "suffix tr tr' \<Longrightarrow> good_id st0 env tr s \<Longrightarrow> good_id st0 env tr' s"
  unfolding good_id_def using uploaded_ids_suffix by blast

lemma import_ok_suffix: "suffix tr tr' \<Longrightarrow> import_ok st0 env tr r \<Longrightarrow> import_ok st0 env tr' r"
  unfolding import_ok_def list_ex_iff using uploaded_ids_suffix by blast

lemma ledger_ok_suffix:
  "suffix (trace w) (trace w') \<Longrightarrow> state w' = state w \<Longrightarrow> ledger_ok st0 env w \<Longrightarrow> ledger_ok st0 env w'"
  unfolding ledger_ok_def list_all_iff using good_id_suffix
  by (fastforce split: pyval.splits)

lemma valid_normalize: "is_valid_file_id (PStr s) \<Longrightarrow> normalize_ref s = s"
  by (simp add: normalize_ref_def is_valid_file_id.simps split: if_splits)

lemma good_import_ok:
  "good_id st0 env tr s \<Longrightarrow> is_valid_file_id (PStr (normalize_ref s)) \<Longrightarrow> import_ok st0 env tr (normalize_ref s)"
proof -
  assume g: "good_id st0 env tr s" and v: "is_valid_file_id (PStr (normalize_ref s))"
  from g consider (a) "is_valid_file_id (PStr s)" "list_ex (\<lambda>(k, e). dict_get e file_id_key = PStr s) st0"
    | (b) "s \<in> set (uploaded_ids env tr)" unfolding good_id_def by blast
  then show ?thesis
  proof cases
    case a
    from valid_normalize[OF a(1)] a v show ?thesis by (simp add: import_ok_def)
  next
    case b
    then have "list_ex (\<lambda>resource. normalize_ref resource = normalize_ref s) (uploaded_ids env tr)"
      unfolding list_ex_iff by blast
    with v show ?thesis by (simp add: import_ok_def)
  qed
qed

subsection \<open>Which events each step adds\<close>

lemma adds_refl: "adds P w w"
  by (simp add: adds_def)

lemma adds_same: "trace w' = trace w \<Longrightarrow> adds P w w'"
  by (simp add: adds_def)

lemma adds_emit: "P ev \<Longrightarrow> adds P w (emit ev w)"
  by (simp add: adds_def)

lemma adds_trans: "adds P w w' \<Longrightarrow> adds P w' w'' \<Longrightarrow> adds P w w''"
  by (auto simp: adds_def)

lemma adds_suffix: "adds P w w' \<Longrightarrow> suffix (trace w) (trace w')"
  by (auto simp: adds_def suffix_def)

lemma adds_imports:
  "adds (\<lambda>ev. \<not> is_import ev) w w' \<Longrightarrow> ImportFile sn r \<in> set (trace w') \<Longrightarrow> ImportFile sn r \<in> set (trace w)"
  by (fastforce simp: adds_def list_all_iff)

lemma save_state_quiet: "save_state w = (x, w') \<Longrightarrow> quiet w w'"
  by (auto simp: save_state_def Let_def adds_def split: if_splits)

lemma clean_state_quiet: "clean_state w = (x, w') \<Longrightarrow> quiet w w'"
  by (auto simp: clean_state_def adds_def split: prod.splits if_splits dest!: save_state_quiet)

lemma try_upload_quiet: "try_upload_with_name env w f name = (r, w') \<Longrightarrow> quiet w w'"
  by (auto simp: try_upload_with_name_def Let_def adds_def split: if_splits option.splits)

lemma try_upload_id:
  "try_upload_with_name env w f name = (Inr rn, w') \<Longrightarrow> rn \<in> set (uploaded_ids env (trace w'))"
  by (auto simp: try_upload_with_name_def Let_def split: if_splits option.splits)


lemma adds_weaken: "adds P w w' \<Longrightarrow> (\<And>ev. P ev \<Longrightarrow> Q ev) \<Longrightarrow> adds Q w w'"
  by (auto simp: adds_def list_all_iff)

lemma upload_with_fallback_quiet:
  assumes "upload_with_fallback env w f n = (r, w')"
  shows "quiet w w' \<and> (\<forall>rn. r = Inr rn \<longrightarrow> rn \<in> set (uploaded_ids env (trace w')))"
proof (cases "prefer_utf8 w")
  case False
  with assms have t: "try_upload_with_name env w f n = (r, w')" by (simp add: upload_with_fallback_def)
  from try_upload_quiet[OF t] try_upload_id t show ?thesis by blast
next
  case True
  obtain r1 w2 where t1: "try_upload_with_name env w f (p_name f) = (r1, w2)"
    by (cases "try_upload_with_name env w f (p_name f)")
  show ?thesis
  proof (cases r1)
    case (Inr res)
    with True assms t1 have e: "w' = w2" "r = Inr res" by (simp_all add: upload_with_fallback_def)
    from try_upload_quiet[OF t1] try_upload_id[of env w f "p_name f" res w2] t1 Inr e show ?thesis by simp
  next
    case (Inl e)
    with True assms t1 have t2: "try_upload_with_name env w2 f n = (r, w')" by (simp add: upload_with_fallback_def)
    from try_upload_quiet[OF t1] try_upload_quiet[OF t2] have "quiet w w'" by (rule adds_trans)
    with try_upload_id t2 show ?thesis by blast
  qed
qed

lemma record_upload_quiet:
  assumes "record_upload w f res n = (r, w')"
  shows "quiet w w' \<and> state w' = AList.update (p_resolved f) (file_info_of res (p_name f) n) (state w)
         \<and> (\<forall>info. r = Inr info \<longrightarrow> info = file_info_of res (p_name f) n)"
proof -
  let ?w = "w\<lparr>state := AList.update (p_resolved f) (file_info_of res (p_name f) n) (state w)\<rparr>"
  obtain x w4 where s: "save_state ?w = (x, w4)" by (cases "save_state ?w")
  from save_state_quiet[OF s] have q: "quiet w w4" by (simp add: adds_def)
  from save_state_cases[OF s] have st: "state w4 = state ?w" by simp
  from assms s have e: "w' = w4" by (cases x) (simp_all add: record_upload_def Let_def)
  from assms s have "\<forall>info. r = Inr info \<longrightarrow> info = file_info_of res (p_name f) n"
    by (cases x) (auto simp: record_upload_def Let_def)
  with q st e show ?thesis by simp
qed

lemma set_update_subset: "set (AList.update k v al) \<subseteq> insert (k, v) (set al)"
  by (induction al) auto

lemma cached_entry:
  assumes "truthy (dict_get (state_get st key) file_id_key)"
  shows "(key, state_get st key) \<in> set st"
proof (cases "map_of st key")
  case None
  with assms show ?thesis by (simp add: state_get_def dict_get_def)
next
  case (Some e)
  then show ?thesis by (simp add: state_get_def map_of_SomeD)
qed

lemma ledger_ok_entry:
  assumes "ledger_ok st0 env w" "(k, e) \<in> set (state w)" "truthy (dict_get e file_id_key)"
  shows "\<exists>s. dict_get e file_id_key = PStr s \<and> good_id st0 env (trace w) s"
proof -
  from assms have "case dict_get e file_id_key of PStr s \<Rightarrow> good_id st0 env (trace w) s | _ \<Rightarrow> False"
    by (auto simp: ledger_ok_def list_all_iff)
  then show ?thesis by (cases "dict_get e file_id_key") auto
qed

lemma file_info_id: "dict_get (file_info_of res a b) file_id_key = PStr res"
  by (simp add: file_info_of_def dict_get_def file_id_key_def)

lemma upload_file_ok:
  assumes ok: "ledger_ok st0 env w" and u: "upload_file env w f = (r, w')"
  shows "quiet w w' \<and> ledger_ok st0 env w'
         \<and> (\<forall>info. r = Inr info \<and> truthy (dict_get info file_id_key)
               \<longrightarrow> (\<exists>s. dict_get info file_id_key = PStr s \<and> good_id st0 env (trace w') s))"
proof (cases "truthy (dict_get (state_get (state w) (p_resolved f)) file_id_key)")
  case True
  with u have e: "w' = w" "r = Inr (state_get (state w) (p_resolved f))" by (auto simp: upload_file_def)
  from cached_entry[OF True] ledger_ok_entry[OF ok] True
  have "\<exists>s. dict_get (state_get (state w) (p_resolved f)) file_id_key = PStr s \<and> good_id st0 env (trace w) s"
    by blast
  with e ok show ?thesis by (simp add: adds_refl)
next
  case False
  obtain n w1 where a: "ascii_safe_call env w (p_name f) = (n, w1)" by (cases "ascii_safe_call env w (p_name f)")
  note a1 = ascii_safe_call_same[OF a]
  obtain r2 w3 where t: "upload_with_fallback env w1 f n = (r2, w3)" by (cases "upload_with_fallback env w1 f n")
  note t3 = upload_with_fallback_quiet[OF t]
  note t4 = upload_with_fallback_trace[OF t]
  from a1 have q1: "quiet w w1" by (simp add: adds_same)
  from q1 t3 have q3: "quiet w w3" using adds_trans by blast
  have ok3: "ledger_ok st0 env w3"
    using ok adds_suffix[OF q3] t4 a1 by (intro ledger_ok_suffix[of w w3]) simp_all
  show ?thesis
  proof (cases r2)
    case (Inl e)
    with u False a t have "w' = w3" "r = Inl e" by (simp_all add: upload_file_def)
    with q3 ok3 show ?thesis by simp
  next
    case (Inr res)
    with u False a t have ru: "record_upload w3 f res n = (r, w')" by (simp add: upload_file_def)
    note r3 = record_upload_quiet[OF ru]
    from q3 r3 have q: "quiet w w'" using adds_trans by blast
    from t3 Inr have rid: "res \<in> set (uploaded_ids env (trace w3))" by simp
    from r3 have sfx: "suffix (trace w3) (trace w')" using adds_suffix by blast
    have gres: "good_id st0 env (trace w') res"
      using rid uploaded_ids_suffix[OF sfx] by (auto simp: good_id_def)
    have "ledger_ok st0 env w'"
      unfolding ledger_ok_def list_all_iff
    proof (intro ballI, clarify)
      fix k e assume m: "(k, e) \<in> set (state w')" and tr: "truthy (dict_get e file_id_key)"
      from m r3 set_update_subset have "(k, e) = (p_resolved f, file_info_of res (p_name f) n) \<or> (k, e) \<in> set (state w3)"
        by fastforce
      then show "case dict_get e file_id_key of PStr s \<Rightarrow> good_id st0 env (trace w') s | _ \<Rightarrow> False"
      proof
        assume "(k, e) = (p_resolved f, file_info_of res (p_name f) n)"
        then show ?thesis using gres by (simp add: file_info_id)
      next
        assume "(k, e) \<in> set (state w3)"
        from ledger_ok_entry[OF ok3 this tr] obtain s where "dict_get e file_id_key = PStr s" "good_id st0 env (trace w3) s"
          by blast
        then show ?thesis using good_id_suffix[OF sfx] by simp
      qed
    qed
    moreover have "\<forall>info. r = Inr info \<and> truthy (dict_get info file_id_key)
               \<longrightarrow> (\<exists>s. dict_get info file_id_key = PStr s \<and> good_id st0 env (trace w') s)"
      using r3 gres by (auto simp: file_info_id)
    ultimately show ?thesis using q by simp
  qed
qed

lemma wait_for_import_quiet:
  assumes "wait_for_import env w op = Some y"
  shows "quiet w (snd y)"
proof (rule wait_for_import.raw_induct[where P = "\<lambda>env w op y. quiet w (snd y)", OF _ assms])
  fix wait :: "env \<Rightarrow> tool \<Rightarrow> operation \<Rightarrow> ((exn + operation) \<times> tool) option"
  fix env w op y
  assume IH: "\<And>env w op y. wait env w op = Some y \<Longrightarrow> quiet w (snd y)"
  assume body: "(if op_done op then Some (Inr op, w)
      else case e_operations_get env (trace w) op of
           Inl e \<Rightarrow> Some (Inl e, emit (GetOperation op) w)
           | Inr op' \<Rightarrow> wait env (emit (GetOperation op) w) op') = Some y"
  have q: "quiet w (emit (GetOperation op) w)" by (rule adds_emit) simp
  show "quiet w (snd y)"
  proof (cases "op_done op")
    case True
    with body show ?thesis by (auto simp: adds_refl)
  next
    case False
    show ?thesis
    proof (cases "e_operations_get env (trace w) op")
      case (Inl e)
      with False body q show ?thesis by auto
    next
      case (Inr op')
      with False body have "wait env (emit (GetOperation op) w) op' = Some y" by simp
      from q IH[OF this] show ?thesis by (rule adds_trans)
    qed
  qed
qed

lemma import_events:
  assumes "import_file_to_store env w sn s = Some (r, w')"
  shows "state w' = state w
         \<and> (\<forall>sn' ref. ImportFile sn' ref \<in> set (trace w') \<longrightarrow>
               ImportFile sn' ref \<in> set (trace w)
               \<or> (ref = normalize_ref s \<and> s \<noteq> [] \<and> is_valid_file_id (PStr (normalize_ref s))))"
proof (cases "s = [] \<or> \<not> is_valid_file_id (PStr (normalize_ref s))")
  case True
  with assms have "w' = w" by (simp add: import_skip)
  then show ?thesis by simp
next
  case False
  then have go: "s \<noteq> []" "is_valid_file_id (PStr (normalize_ref s))" by simp_all
  let ?w1 = "emit (ImportFile sn (normalize_ref s)) w"
  have "quiet ?w1 w'"
  proof (cases "e_import_file env (trace w) sn (normalize_ref s)")
    case (Inl e)
    with assms have "w' = ?w1" by (simp add: import_go[OF go])
    then show ?thesis by (simp add: adds_refl)
  next
    case (Inr op)
    with assms obtain r2 where "wait_for_import env ?w1 op = Some (r2, w')"
      by (auto simp add: import_go[OF go] split: option.splits sum.splits prod.splits)
    from wait_for_import_quiet[OF this] show ?thesis by simp
  qed
  then have "\<forall>sn' ref. ImportFile sn' ref \<in> set (trace w') \<longrightarrow> ImportFile sn' ref \<in> set (trace ?w1)"
    using adds_imports by blast
  with go import_trace[OF assms] show ?thesis by auto
qed


lemma prepare_file_ok:
  assumes ok: "ledger_ok st0 env w"
      and im: "\<forall>sn ref. ImportFile sn ref \<in> set (trace w) \<longrightarrow>
                 ImportFile sn ref \<in> set base \<or> import_ok st0 env (trace w) ref"
      and p: "prepare_file env store_name w f = Some w'"
  shows "ledger_ok st0 env w'
         \<and> (\<forall>sn ref. ImportFile sn ref \<in> set (trace w') \<longrightarrow>
               ImportFile sn ref \<in> set base \<or> import_ok st0 env (trace w') ref)"
proof -
  obtain r w1 where u: "upload_file env w f = (r, w1)" by (cases "upload_file env w f")
  note u1 = upload_file_ok[OF ok u]
  from u1 have q1: "quiet w w1" and ok1: "ledger_ok st0 env w1" by simp_all
  have s1: "suffix (trace w) (trace w1)" using q1 by (rule adds_suffix)
  have im1: "\<forall>sn ref. ImportFile sn ref \<in> set (trace w1) \<longrightarrow>
                 ImportFile sn ref \<in> set base \<or> import_ok st0 env (trace w1) ref"
  proof (intro allI impI)
    fix sn ref assume "ImportFile sn ref \<in> set (trace w1)"
    with q1 have "ImportFile sn ref \<in> set (trace w)" by (rule adds_imports)
    with im have "ImportFile sn ref \<in> set base \<or> import_ok st0 env (trace w) ref" by blast
    then show "ImportFile sn ref \<in> set base \<or> import_ok st0 env (trace w1) ref"
      using import_ok_suffix[OF s1] by blast
  qed
  have same: "w' = w1 \<Longrightarrow> ?thesis" using ok1 im1 by simp
  show ?thesis
  proof (cases r)
    case (Inl e)
    with u p have "w' = w1" by (simp add: prepare_file_def)
    then show ?thesis by (rule same)
  next
    case (Inr info)
    show ?thesis
    proof (cases "info = [] \<or> \<not> truthy (dict_get info file_id_key)")
      case True
      with u p Inr have "w' = w1" by (auto simp: prepare_file_def)
      then show ?thesis by (rule same)
    next
      case False
      with u1 Inr obtain s where s: "dict_get info file_id_key = PStr s" and g: "good_id st0 env (trace w1) s"
        by blast
      from False u p Inr s obtain r2 where i: "import_file_to_store env w1 store_name s = Some (r2, w')"
        by (auto simp: prepare_file_def split: option.splits)
      note e = import_events[OF i]
      from import_trace[OF i] have s2: "suffix (trace w1) (trace w')" by simp
      from e have st: "state w' = state w1" by simp
      have ok': "ledger_ok st0 env w'" using s2 st ok1 by (rule ledger_ok_suffix)
      have "\<forall>sn ref. ImportFile sn ref \<in> set (trace w') \<longrightarrow>
               ImportFile sn ref \<in> set base \<or> import_ok st0 env (trace w') ref"
      proof (intro allI impI)
        fix sn ref assume "ImportFile sn ref \<in> set (trace w')"
        with e have "ImportFile sn ref \<in> set (trace w1)
               \<or> (ref = normalize_ref s \<and> s \<noteq> [] \<and> is_valid_file_id (PStr (normalize_ref s)))" by blast
        then show "ImportFile sn ref \<in> set base \<or> import_ok st0 env (trace w') ref"
        proof
          assume "ImportFile sn ref \<in> set (trace w1)"
          with im1 have "ImportFile sn ref \<in> set base \<or> import_ok st0 env (trace w1) ref" by blast
          then show ?thesis using import_ok_suffix[OF s2] by blast
        next
          assume a: "ref = normalize_ref s \<and> s \<noteq> [] \<and> is_valid_file_id (PStr (normalize_ref s))"
          with good_import_ok[OF g] have "import_ok st0 env (trace w1) ref" by simp
          then show ?thesis using import_ok_suffix[OF s2] by blast
        qed
      qed
      with ok' show ?thesis by simp
    qed
  qed
qed

lemma prepare_loop_ok:
  assumes "ledger_ok st0 env w"
      and "\<forall>sn ref. ImportFile sn ref \<in> set (trace w) \<longrightarrow>
                 ImportFile sn ref \<in> set base \<or> import_ok st0 env (trace w) ref"
      and "prepare_loop env store_name w fs = Some w'"
  shows "\<forall>sn ref. ImportFile sn ref \<in> set (trace w') \<longrightarrow>
               ImportFile sn ref \<in> set base \<or> import_ok st0 env (trace w') ref"
  using assms
proof (induction fs arbitrary: w)
  case Nil
  then show ?case by simp
next
  case (Cons f fs)
  from Cons.prems(3) obtain v where p: "prepare_file env store_name w f = Some v"
    and l: "prepare_loop env store_name v fs = Some w'"
    by (auto split: option.splits)
  from prepare_file_ok[OF Cons.prems(1,2) p] have "ledger_ok st0 env v"
    and "\<forall>sn ref. ImportFile sn ref \<in> set (trace v) \<longrightarrow>
                 ImportFile sn ref \<in> set base \<or> import_ok st0 env (trace v) ref" by simp_all
  from Cons.IH[OF this l] show ?case .
qed

lemma remote_create_quiet: "remote_create env w n = (r, w') \<Longrightarrow> quiet w w' \<and> state w' = state w"
  by (auto simp: remote_create_def adds_def)

lemma resolve_quiet:
  assumes "create_or_get_file_search_store env w = (r, w')"
  shows "quiet w w' \<and> state w' = state w"
proof (cases "e_stores_list env (trace w)")
  case (Inl e)
  with assms have "w' = emit ListStores w" by (simp add: create_or_get_file_search_store_def)
  then show ?thesis by (simp add: adds_def)
next
  case (Inr stores)
  obtain n w1 where a: "ascii_safe_call env (emit ListStores w) (store_display_name w) = (n, w1)"
    by (cases "ascii_safe_call env (emit ListStores w) (store_display_name w)")
  from ascii_safe_call_same[OF a] have q1: "quiet w w1" and s1: "state w1 = state w"
    by (simp_all add: adds_def)
  show ?thesis
  proof (cases "find (\<lambda>s. s_display_name s = Some (store_display_name w) \<or> s_display_name s = Some n) stores")
    case (Some s)
    with assms Inr a have "w' = w1" by (simp add: create_or_get_file_search_store_def)
    with q1 s1 show ?thesis by simp
  next
    case None
    show ?thesis
    proof (cases "prefer_utf8 w")
      case False
      with assms Inr a None have "remote_create env w1 n = (r, w')"
        by (simp add: create_or_get_file_search_store_def)
      from remote_create_quiet[OF this] q1 s1 show ?thesis using adds_trans by auto
    next
      case True
      obtain r2 w2 where c: "remote_create env w1 (store_display_name w) = (r2, w2)"
        by (cases "remote_create env w1 (store_display_name w)")
      note c2 = remote_create_quiet[OF c]
      show ?thesis
      proof (cases r2)
        case (Inr s)
        with assms \<open>e_stores_list env (trace w) = Inr stores\<close> a None True c have "w' = w2"
          by (simp add: create_or_get_file_search_store_def)
        with c2 q1 s1 show ?thesis using adds_trans by auto
      next
        case (Inl e)
        with assms \<open>e_stores_list env (trace w) = Inr stores\<close> a None True c
        have "remote_create env w2 n = (r, w')"
          by (simp add: create_or_get_file_search_store_def)
        from remote_create_quiet[OF this] c2 q1 s1 show ?thesis using adds_trans by (auto; blast)
      qed
    qed
  qed
qed

lemma clean_state_state:
  assumes "distinct (map fst (state w))"
  shows "state (snd (clean_state w)) = filter (\<lambda>(k, v). is_valid_file_id (dict_get v file_id_key)) (state w)"
proof -
  have "filter (\<lambda>(k, v). \<not> entry_invalid v) (state w)
         = filter (\<lambda>(k, v). is_valid_file_id (dict_get v file_id_key)) (state w)"
    by (simp add: entry_invalid_iff)
  then show ?thesis
    by (simp add: clean_state_def clean_state_loop_self[OF assms] state_save_state)
qed

lemma clean_state_ledger_ok:
  assumes "distinct (map fst (state w))" "clean_state w = (x, w2)"
  shows "ledger_ok (state w) env w2"
  unfolding ledger_ok_def list_all_iff
proof (intro ballI, clarify)
  fix k e assume "(k, e) \<in> set (state w2)"
  with clean_state_state[OF assms(1)] assms(2)
  have m: "(k, e) \<in> set (state w)" and v: "is_valid_file_id (dict_get e file_id_key)" by auto
  from v obtain s where s: "dict_get e file_id_key = PStr s" by (cases "dict_get e file_id_key") (simp_all add: is_valid_file_id.simps)
  from m s have "list_ex (\<lambda>(k, e). dict_get e file_id_key = PStr s) (state w)"
    unfolding list_ex_iff by blast
  with v s show "case dict_get e file_id_key of PStr s \<Rightarrow> good_id (state w) env (trace w2) s | _ \<Rightarrow> False"
    by (simp add: good_id_def)
qed


lemma prepare_schedule:
  assumes "distinct (map fst (state w))"
      and "create_or_get_file_search_store env w = (Inr store, w1)"
      and "e_docs env = Some files" and "files \<noteq> []"
  shows "\<exists>x w2. clean_state w1 = (x, w2)
           \<and> state w2 = filter (\<lambda>(k, v). is_valid_file_id (dict_get v file_id_key)) (state w)
           \<and> prepare env w =
               (case x of
                  Some e \<Rightarrow> Some (Inl e, w2)
                | None \<Rightarrow> (case prepare_loop env (s_name store) w2 files of
                             None \<Rightarrow> None
                           | Some w3 \<Rightarrow> Some (Inr store, w3)))"
proof -
  obtain x w2 where c: "clean_state w1 = (x, w2)" by (cases "clean_state w1")
  from resolve_quiet[OF assms(2)] have s1: "state w1 = state w" by simp
  with assms(1) have d1: "distinct (map fst (state w1))" by simp
  from clean_state_state[OF d1] c s1
  have st: "state w2 = filter (\<lambda>(k, v). is_valid_file_id (dict_get v file_id_key)) (state w)" by simp
  have "prepare env w =
               (case x of
                  Some e \<Rightarrow> Some (Inl e, w2)
                | None \<Rightarrow> (case prepare_loop env (s_name store) w2 files of
                             None \<Rightarrow> None
                           | Some w3 \<Rightarrow> Some (Inr store, w3)))"
    using assms(2-4) c by (cases x) (simp_all add: prepare_def list_docs_def)
  with c st show ?thesis by blast
qed

lemma prepare_imports:
  assumes d: "distinct (map fst (state w))" and p: "prepare env w = Some (r, w')"
  shows "\<forall>sn ref. ImportFile sn ref \<in> set (trace w') \<longrightarrow>
           ImportFile sn ref \<in> set (trace w) \<or> import_ok (state w) env (trace w') ref"
proof -
  obtain r1 w1 where c: "create_or_get_file_search_store env w = (r1, w1)"
    by (cases "create_or_get_file_search_store env w")
  from resolve_quiet[OF c] have q1: "quiet w w1" and s1: "state w1 = state w" by simp_all
  have quiet_case: "quiet w w' \<Longrightarrow> ?thesis" using adds_imports by blast
  show ?thesis
  proof (cases r1)
    case (Inl e)
    with p c have "w' = w1" by (simp add: prepare_def)
    with q1 show ?thesis by (intro quiet_case) simp
  next
    case (Inr store)
    show ?thesis
    proof (cases "e_docs env")
      case None
      with p c Inr have "w' = w1" by (simp add: prepare_def list_docs_def)
      with q1 show ?thesis by (intro quiet_case) simp
    next
      case (Some files)
      show ?thesis
      proof (cases "files = []")
        case True
        with p c Inr Some have "w' = w1" by (simp add: prepare_def list_docs_def)
        with q1 show ?thesis by (intro quiet_case) simp
      next
        case False
        obtain x w2 where cl: "clean_state w1 = (x, w2)" by (cases "clean_state w1")
        from clean_state_quiet[OF cl] q1 have q2: "quiet w w2" using adds_trans by blast
        show ?thesis
        proof (cases x)
          case (Some e)
          with p c Inr \<open>e_docs env = Some files\<close> False cl have "w' = w2"
            by (simp add: prepare_def list_docs_def)
          with q2 show ?thesis by (intro quiet_case) simp
        next
          case None
          with p c Inr \<open>e_docs env = Some files\<close> False cl
          have l: "prepare_loop env (s_name store) w2 files = Some w'"
            by (auto simp: prepare_def list_docs_def split: option.splits)
          from d s1 have d1: "distinct (map fst (state w1))" by simp
          from clean_state_ledger_ok[OF d1 cl] s1 have ok: "ledger_ok (state w) env w2" by simp
          have im: "\<forall>sn ref. ImportFile sn ref \<in> set (trace w2) \<longrightarrow>
                 ImportFile sn ref \<in> set (trace w) \<or> import_ok (state w) env (trace w2) ref"
            using q2 adds_imports by blast
          from prepare_loop_ok[OF ok im l] show ?thesis .
        qed
      qed
    qed
  qed
qed

subsection \<open>Claim C9: the ledger is pruned before any import\<close>

text \<open>
  C9 (amended). For every ledger (a dict, so its keys are distinct): when the store is
  resolved and the listing is not empty, \<open>prepare\<close> prunes the ledger after the store
  resolution and runs the loop over the files from the pruned ledger, which holds
  exactly the entries of the old one whose id passes the identifier check (an exception
  of the pruning ends the run before the loop). In every run that returns, each import
  request that the run adds to the trace carries a reference that passes the identifier
  check and is the id of an entry of the ledger as it was at the start, or the
  normalised id returned by an upload: an invalid ledger entry is never the input of an
  import.
\<close>

theorem prepare_prunes_before_imports:
  assumes "distinct (map fst (state w))"
  shows "(create_or_get_file_search_store env w = (Inr store, w1) \<and> e_docs env = Some files \<and> files \<noteq> []
            \<longrightarrow> (\<exists>x w2. clean_state w1 = (x, w2)
                   \<and> state w2 = filter (\<lambda>(k, v). is_valid_file_id (dict_get v file_id_key)) (state w)
                   \<and> prepare env w =
                       (case x of
                          Some e \<Rightarrow> Some (Inl e, w2)
                        | None \<Rightarrow> (case prepare_loop env (s_name store) w2 files of
                                     None \<Rightarrow> None
                                   | Some w3 \<Rightarrow> Some (Inr store, w3)))))
         \<and> (prepare env w = Some (r, w')
            \<longrightarrow> (\<forall>sn ref. ImportFile sn ref \<in> set (trace w') \<longrightarrow>
                   ImportFile sn ref \<in> set (trace w) \<or> import_ok (state w) env (trace w') ref))"
  using prepare_schedule[OF assms] prepare_imports[OF assms] by blast

lemma prepare_empty:
  "prepare (example_env (Some []) u i g) (example_tool st)
     = Some (Inr example_store, emit ListStores (example_tool st))"
  by (simp add: prepare_def resolve_example d_ex)

text \<open>
  C9 (counterexample). With an empty listing \<open>prepare\<close> returns the store right after
  the store resolution: the pruning does not run, and the ledger keeps its entry with
  an empty id.
\<close>

theorem prepare_empty_listing_keeps_invalid:
  "prepare (example_env (Some []) refuse refuse refuse) (example_tool ledger3)
     = Some (Inr example_store, emit ListStores (example_tool ledger3))
   \<and> state (emit ListStores (example_tool ledger3)) = ledger3
   \<and> entry_invalid (snd (ledger3 ! 0))"
proof (intro conjI)
  show "prepare (example_env (Some []) refuse refuse refuse) (example_tool ledger3)
     = Some (Inr example_store, emit ListStores (example_tool ledger3))"
    by (rule prepare_empty)
  show "state (emit ListStores (example_tool ledger3)) = ledger3"
    by (simp add: example_tool_def)
  show "entry_invalid (snd (ledger3 ! 0))"
    by (simp add: entry_invalid_def ledger3_def file_info_of_def dict_get_def file_id_key_def)
qed


lemma prepare_file_c_refused:
  assumes "state w = [ledger3 ! 2]"
  shows "prepare_file (example_env d u refuse g) sn w (doc ''c.txt'')
           = Some (emit (ImportFile sn (ascii ''files/abc-123'')) w)"
proof -
  let ?E = "example_env d u refuse g"
  have c: "state_get (state w) (p_resolved (doc ''c.txt'')) = snd (ledger3 ! 2)"
    using assms by (simp add: ledger3_def doc_def state_get_def)
  have g: "dict_get (snd (ledger3 ! 2)) file_id_key = PStr (ascii ''files/abc-123'')"
    by (simp add: ledger3_def file_info_of_def dict_get_def file_id_key_def)
  have nn: "ascii ''files/abc-123'' \<noteq> []" by (simp add: ascii_def)
  have u: "upload_file ?E w (doc ''c.txt'') = (Inr (snd (ledger3 ! 2)), w)"
    using nn by (simp add: upload_file_def c g)
  have n: "normalize_ref (ascii ''files/abc-123'') = ascii ''files/abc-123''"
    by (simp add: normalize_ref_def startswith_def ascii_def)
  have v: "is_valid_file_id (PStr (normalize_ref (ascii ''files/abc-123'')))"
    unfolding n by (rule valid_abc)
  have imp: "\<And>r. e_import_file ?E (trace w) sn r = Inl (Exception (ascii ''UNAVAILABLE''))"
    by (simp add: example_env_def refuse_def)
  have i: "import_file_to_store ?E w sn (ascii ''files/abc-123'')
             = Some (Inr None, emit (ImportFile sn (ascii ''files/abc-123'')) w)"
    unfolding import_go[OF nn v] by (simp add: imp n)
  have ne: "snd (ledger3 ! 2) \<noteq> []" by (simp add: ledger3_def file_info_of_def)
  show ?thesis using ne nn by (simp add: prepare_file_def u g i)
qed

lemma prepare_c_refused:
  "prepare (example_env (Some [doc ''c.txt'']) u refuse g) (example_tool [ledger3 ! 2])
     = Some (Inr example_store,
             emit (ImportFile (s_name example_store) (ascii ''files/abc-123''))
               (emit ListStores (example_tool [ledger3 ! 2])))"
proof -
  let ?E = "example_env (Some [doc ''c.txt'']) u refuse g"
  let ?w1 = "emit ListStores (example_tool [ledger3 ! 2])"
  have s1: "state ?w1 = [ledger3 ! 2]" by (simp add: example_tool_def)
  have l: "prepare_loop ?E (s_name example_store) ?w1 [doc ''c.txt'']
             = Some (emit (ImportFile (s_name example_store) (ascii ''files/abc-123'')) ?w1)"
    by (simp add: prepare_file_c_refused[OF s1])
  have "prepare ?E (example_tool [ledger3 ! 2])
      = (case prepare_loop ?E (s_name example_store) ?w1 [doc ''c.txt''] of
           None \<Rightarrow> None | Some w3 \<Rightarrow> Some (Inr example_store, w3))"
    by (rule prepare_unfold[OF resolve_example d_ex clean_example[OF s1]])
  then show ?thesis unfolding l by simp
qed

lemma witness_distinct: "distinct (map fst (state (example_tool ledger3)))"
  by (simp add: example_tool_def ledger3_def doc_def ascii_def)

lemma witness_distinct_c: "distinct (map fst (state (example_tool [ledger3 ! 2])))"
  by (simp add: example_tool_def)

lemma witness_resolve3:
  "create_or_get_file_search_store (example_env (Some [doc ''c.txt'']) refuse refuse refuse) (example_tool ledger3)
     = (Inr example_store, emit ListStores (example_tool ledger3))
   \<and> e_docs (example_env (Some [doc ''c.txt'']) refuse refuse refuse) = Some [doc ''c.txt'']
   \<and> [doc ''c.txt''] \<noteq> []"
  by (simp add: resolve_example) (simp add: example_env_def)

lemma witness_in_trace:
  "ImportFile (s_name example_store) (ascii ''files/abc-123'')
     \<in> set (trace (emit (ImportFile (s_name example_store) (ascii ''files/abc-123''))
                    (emit ListStores (example_tool [ledger3 ! 2]))))"
  by simp

lemma witness_not_before:
  "ImportFile (s_name example_store) (ascii ''files/abc-123'') \<notin> set (trace (example_tool [ledger3 ! 2]))"
  by (simp add: example_tool_def)

theorem prepare_prunes_before_imports_witness:
  "distinct (map fst (state (example_tool ledger3)))
   \<and> state (snd (clean_state (emit ListStores (example_tool ledger3)))) = [ledger3 ! 2]
   \<and> prepare (example_env (Some [doc ''c.txt'']) refuse refuse refuse) (example_tool [ledger3 ! 2])
       = Some (Inr example_store,
               emit (ImportFile (s_name example_store) (ascii ''files/abc-123''))
                 (emit ListStores (example_tool [ledger3 ! 2])))
   \<and> import_ok (state (example_tool [ledger3 ! 2]))
        (example_env (Some [doc ''c.txt'']) refuse refuse refuse)
        (trace (emit (ImportFile (s_name example_store) (ascii ''files/abc-123''))
                  (emit ListStores (example_tool [ledger3 ! 2]))))
        (ascii ''files/abc-123'')"
proof (intro conjI)
  show "distinct (map fst (state (example_tool ledger3)))" by (rule witness_distinct)
  note T = prepare_prunes_before_imports[OF witness_distinct,
        where env = "example_env (Some [doc ''c.txt'']) refuse refuse refuse" and store = example_store
          and ?w1.0 = "emit ListStores (example_tool ledger3)" and files = "[doc ''c.txt'']"
          and r = "Inr example_store" and w' = "example_tool []"]
  from T[THEN conjunct1, THEN mp, OF witness_resolve3]
  have "state (snd (clean_state (emit ListStores (example_tool ledger3))))
      = filter (\<lambda>(k, v). is_valid_file_id (dict_get v file_id_key)) (state (example_tool ledger3))"
    by (elim exE conjE) (simp only: snd_conv)
  then show "state (snd (clean_state (emit ListStores (example_tool ledger3)))) = [ledger3 ! 2]"
    by (simp add: example_tool_def ledger3_valid)
  show "prepare (example_env (Some [doc ''c.txt'']) refuse refuse refuse) (example_tool [ledger3 ! 2])
       = Some (Inr example_store,
               emit (ImportFile (s_name example_store) (ascii ''files/abc-123''))
                 (emit ListStores (example_tool [ledger3 ! 2])))"
    by (rule prepare_c_refused)
  note T2 = prepare_prunes_before_imports[OF witness_distinct_c,
        where env = "example_env (Some [doc ''c.txt'']) refuse refuse refuse"
          and store = example_store and ?w1.0 = "example_tool []" and files = "[]"
          and r = "Inr example_store"
          and w' = "emit (ImportFile (s_name example_store) (ascii ''files/abc-123''))
                 (emit ListStores (example_tool [ledger3 ! 2]))"]
  from T2[THEN conjunct2, THEN mp, OF prepare_c_refused, THEN spec, THEN spec, THEN mp, OF witness_in_trace]
    witness_not_before
  show "import_ok (state (example_tool [ledger3 ! 2]))
        (example_env (Some [doc ''c.txt'']) refuse refuse refuse)
        (trace (emit (ImportFile (s_name example_store) (ascii ''files/abc-123''))
                  (emit ListStores (example_tool [ledger3 ! 2]))))
        (ascii ''files/abc-123'')"
    by (elim disjE) (erule notE, assumption+)
qed

section \<open>The batch goes through every file\<close>

subsection \<open>The events of one step\<close>

lemma new_events_eq: "trace w' = new @ trace w \<Longrightarrow> new_events w w' = new"
  by (simp add: new_events_def)

lemma new_events_trans:
  assumes "suffix (trace w) (trace w1)" "suffix (trace w1) (trace w2)"
  shows "new_events w w2 = new_events w1 w2 @ new_events w w1"
proof -
  from assms obtain a b where a: "trace w1 = a @ trace w" and b: "trace w2 = b @ trace w1"
    by (auto simp: suffix_def)
  then have "trace w2 = (b @ a) @ trace w" by simp
  from new_events_eq[OF this] new_events_eq[OF a] new_events_eq[OF b] show ?thesis by simp
qed

lemma new_events_same: "trace w1 = trace w \<Longrightarrow> new_events w w' = new_events w1 w'"
  by (simp add: new_events_def)

lemma upload_attempted_append:
  "upload_attempted f (a @ b) \<longleftrightarrow> upload_attempted f a \<or> upload_attempted f b"
  by (auto simp: upload_attempted_def)

lemma try_upload_new:
  assumes "try_upload_with_name env w f name = (r, w')"
  shows "upload_attempted f (new_events w w')"
proof (cases "isascii (p_name f)")
  case True
  with assms have "\<exists>n m. trace w' = [UploadFile (p_str f) n m] @ trace w"
    by (auto simp: try_upload_with_name_def Let_def)
  then obtain n m where "trace w' = [UploadFile (p_str f) n m] @ trace w" by blast
  from new_events_eq[OF this] show ?thesis by (simp add: upload_attempted_def)
next
  case False
  let ?t = "e_temp_path env name"
  show ?thesis
  proof (cases "e_copy2 env (trace w) (p_str f) ?t")
    case (Some e)
    with False assms have "trace w' = [CopyFile (p_str f) ?t] @ trace w"
      by (auto simp: try_upload_with_name_def Let_def)
    from new_events_eq[OF this] show ?thesis by (simp add: upload_attempted_def)
  next
    case None
    with False assms have "\<exists>m. trace w' = [Unlink ?t, UploadFile ?t name m, CopyFile (p_str f) ?t] @ trace w"
      by (auto simp: try_upload_with_name_def Let_def)
    then obtain m where "trace w' = [Unlink ?t, UploadFile ?t name m, CopyFile (p_str f) ?t] @ trace w"
      by blast
    from new_events_eq[OF this] show ?thesis by (simp add: upload_attempted_def)
  qed
qed

lemma upload_with_fallback_new:
  assumes "upload_with_fallback env w f n = (r, w')"
  shows "upload_attempted f (new_events w w')"
proof (cases "prefer_utf8 w")
  case False
  with assms show ?thesis using try_upload_new by (simp add: upload_with_fallback_def)
next
  case True
  obtain r1 w2 where t1: "try_upload_with_name env w f (p_name f) = (r1, w2)"
    by (cases "try_upload_with_name env w f (p_name f)")
  show ?thesis
  proof (cases r1)
    case (Inr res)
    with True assms t1 have "w' = w2" by (simp add: upload_with_fallback_def)
    with try_upload_new[OF t1] show ?thesis by simp
  next
    case (Inl e)
    with True assms t1 have t2: "try_upload_with_name env w2 f n = (r, w')"
      by (simp add: upload_with_fallback_def)
    from try_upload_trace[OF t1] try_upload_trace[OF t2]
    have "new_events w w' = new_events w2 w' @ new_events w w2" by (intro new_events_trans) simp_all
    with try_upload_new[OF t1] show ?thesis by (simp add: upload_attempted_append)
  qed
qed

lemma upload_file_new:
  assumes "upload_file env w f = (r, w')"
  shows "cached w f \<or> upload_attempted f (new_events w w')"
proof (cases "cached w f")
  case False
  obtain n w1 where a: "ascii_safe_call env w (p_name f) = (n, w1)" by (cases "ascii_safe_call env w (p_name f)")
  note a1 = ascii_safe_call_same[OF a]
  obtain r2 w3 where t: "upload_with_fallback env w1 f n = (r2, w3)" by (cases "upload_with_fallback env w1 f n")
  note t3 = upload_with_fallback_trace[OF t]
  have s3: "suffix (trace w3) (trace w')"
  proof (cases r2)
    case (Inl e)
    with assms False a t have "w' = w3" by (simp add: upload_file_def cached_def)
    then show ?thesis by simp
  next
    case (Inr res)
    with assms False a t have "record_upload w3 f res n = (r, w')" by (simp add: upload_file_def cached_def)
    then show ?thesis by (rule record_upload_trace)
  qed
  from t3 s3 have "new_events w1 w' = new_events w3 w' @ new_events w1 w3"
    by (intro new_events_trans) simp_all
  with upload_with_fallback_new[OF t] have "upload_attempted f (new_events w1 w')"
    by (simp add: upload_attempted_append)
  with a1 show ?thesis using new_events_same[of w1 w w'] by simp
qed simp

lemma import_new:
  assumes "import_file_to_store env w sn s = Some (r, w')"
      and "s \<noteq> []" "is_valid_file_id (PStr (normalize_ref s))"
  shows "ImportFile sn (normalize_ref s) \<in> set (new_events w w')"
proof -
  let ?w1 = "emit (ImportFile sn (normalize_ref s)) w"
  have "suffix (trace ?w1) (trace w')"
  proof (cases "e_import_file env (trace w) sn (normalize_ref s)")
    case (Inl e)
    with assms(1) have "w' = ?w1" by (simp add: import_go[OF assms(2,3)])
    then show ?thesis by simp
  next
    case (Inr op)
    with assms(1) obtain r2 where "wait_for_import env ?w1 op = Some (r2, w')"
      by (auto simp add: import_go[OF assms(2,3)] split: option.splits sum.splits prod.splits)
    from wait_for_import_trace[OF this] show ?thesis by simp
  qed
  then obtain z where "trace w' = z @ trace ?w1" by (auto simp: suffix_def)
  then have "trace w' = (z @ [ImportFile sn (normalize_ref s)]) @ trace w" by simp
  from new_events_eq[OF this] show ?thesis by simp
qed

lemma prepare_file_new:
  assumes p: "prepare_file env sn w f = Some w'"
  shows "(cached w f \<or> upload_attempted f (new_events w w'))
         \<and> (\<forall>info u s. upload_file env w f = (Inr info, u) \<and> dict_get info file_id_key = PStr s
                \<and> s \<noteq> [] \<and> is_valid_file_id (PStr (normalize_ref s))
              \<longrightarrow> ImportFile sn (normalize_ref s) \<in> set (new_events w w'))"
proof -
  obtain r w1 where u: "upload_file env w f = (r, w1)" by (cases "upload_file env w f")
  from upload_file_trace[OF u] have s1: "suffix (trace w) (trace w1)" by simp
  have s2: "suffix (trace w1) (trace w')
        \<and> (\<forall>info s. r = Inr info \<and> dict_get info file_id_key = PStr s
                \<and> s \<noteq> [] \<and> is_valid_file_id (PStr (normalize_ref s))
              \<longrightarrow> ImportFile sn (normalize_ref s) \<in> set (new_events w1 w'))"
  proof (cases r)
    case (Inl e)
    with u p show ?thesis by (simp add: prepare_file_def)
  next
    case (Inr info)
    show ?thesis
    proof (cases "dict_get info file_id_key")
      case (PStr s)
      show ?thesis
      proof (cases "s = []")
        case True
        with u Inr PStr p show ?thesis by (simp add: prepare_file_def)
      next
        case False
        then have "info \<noteq> []" using PStr by (auto simp: dict_get_def)
        with u Inr PStr False p obtain r2 where i: "import_file_to_store env w1 sn s = Some (r2, w')"
          by (auto simp: prepare_file_def split: option.splits)
        from import_trace[OF i] import_new[OF i False] Inr PStr show ?thesis by simp
      qed
    qed (use u Inr p in \<open>auto simp: prepare_file_def split: if_splits\<close>)
  qed
  from s1 s2 have n: "new_events w w' = new_events w1 w' @ new_events w w1"
    by (intro new_events_trans) simp_all
  from upload_file_new[OF u] have "cached w f \<or> upload_attempted f (new_events w w')"
    unfolding n by (auto simp: upload_attempted_append)
  moreover have "\<forall>info u s. upload_file env w f = (Inr info, u) \<and> dict_get info file_id_key = PStr s
                \<and> s \<noteq> [] \<and> is_valid_file_id (PStr (normalize_ref s))
              \<longrightarrow> ImportFile sn (normalize_ref s) \<in> set (new_events w w')"
    unfolding n using s2 u by auto
  ultimately show ?thesis by simp
qed

lemma prepare_loop_states:
  assumes "\<forall>v op. \<exists>n. finishes n env v op"
  shows "\<exists>ws. length ws = Suc (length fs) \<and> ws ! 0 = w
           \<and> prepare_loop env sn w fs = Some (last ws)
           \<and> (\<forall>i < length fs. prepare_file env sn (ws ! i) (fs ! i) = Some (ws ! Suc i)
                 \<and> suffix (trace (ws ! Suc i)) (trace (last ws)))"
proof (induction fs arbitrary: w)
  case Nil
  have "length [w] = Suc (length ([] :: path list)) \<and> [w] ! 0 = w
           \<and> prepare_loop env sn w [] = Some (last [w])" by simp
  then show ?case by (intro exI[of _ "[w]"]) simp
next
  case (Cons f fs)
  from prepare_file_total[OF assms] obtain v where p: "prepare_file env sn w f = Some v" by blast
  from Cons.IH[of v] obtain ws where len: "length ws = Suc (length fs)" and z: "ws ! 0 = v"
    and l: "prepare_loop env sn v fs = Some (last ws)"
    and a: "\<forall>i < length fs. prepare_file env sn (ws ! i) (fs ! i) = Some (ws ! Suc i)
                 \<and> suffix (trace (ws ! Suc i)) (trace (last ws))" by blast
  from len have ne: "ws \<noteq> []" by auto
  have la: "last (w # ws) = last ws" using ne by simp
  have sv: "suffix (trace v) (trace (last ws))" using l by (rule prepare_loop_trace)
  have "\<forall>i < length (f # fs). prepare_file env sn ((w # ws) ! i) ((f # fs) ! i) = Some ((w # ws) ! Suc i)
                 \<and> suffix (trace ((w # ws) ! Suc i)) (trace (last (w # ws)))"
  proof (intro allI impI)
    fix i assume i: "i < length (f # fs)"
    show "prepare_file env sn ((w # ws) ! i) ((f # fs) ! i) = Some ((w # ws) ! Suc i)
                 \<and> suffix (trace ((w # ws) ! Suc i)) (trace (last (w # ws)))"
    proof (cases i)
      case 0
      with p z sv la show ?thesis by simp
    next
      case (Suc j)
      with i have "j < length fs" by simp
      with a Suc la show ?thesis by simp
    qed
  qed
  moreover have "length (w # ws) = Suc (length (f # fs))" using len by simp
  moreover have "(w # ws) ! 0 = w" by simp
  moreover have "prepare_loop env sn w (f # fs) = Some (last (w # ws))" using p l la by simp
  ultimately show ?case by blast
qed

lemma upload_file_keys:
  assumes "upload_file env w f = (r, w')"
  shows "fst ` set (state w') \<subseteq> insert (p_resolved f) (fst ` set (state w))"
proof (cases "cached w f")
  case True
  with assms have "w' = w" by (auto simp: upload_file_def cached_def)
  then show ?thesis by auto
next
  case False
  obtain n w1 where a: "ascii_safe_call env w (p_name f) = (n, w1)" by (cases "ascii_safe_call env w (p_name f)")
  note a1 = ascii_safe_call_same[OF a]
  obtain r2 w3 where t: "upload_with_fallback env w1 f n = (r2, w3)" by (cases "upload_with_fallback env w1 f n")
  from upload_with_fallback_trace[OF t] a1 have s3: "state w3 = state w" by simp
  show ?thesis
  proof (cases r2)
    case (Inl e)
    with assms False a t have "w' = w3" by (simp add: upload_file_def cached_def)
    with s3 show ?thesis by auto
  next
    case (Inr res)
    with assms False a t have "record_upload w3 f res n = (r, w')" by (simp add: upload_file_def cached_def)
    from record_upload_quiet[OF this]
    have "state w' = AList.update (p_resolved f) (file_info_of res (p_name f) n) (state w3)" by simp
    with set_update_subset[of "p_resolved f" "file_info_of res (p_name f) n" "state w3"] s3
    show ?thesis by auto
  qed
qed

lemma prepare_file_keys:
  assumes "prepare_file env sn w f = Some w'"
  shows "fst ` set (state w') \<subseteq> insert (p_resolved f) (fst ` set (state w))"
proof -
  obtain r w1 where u: "upload_file env w f = (r, w1)" by (cases "upload_file env w f")
  have "state w' = state w1"
  proof (cases r)
    case (Inl e)
    with u assms show ?thesis by (simp add: prepare_file_def)
  next
    case (Inr info)
    show ?thesis
    proof (cases "dict_get info file_id_key")
      case (PStr s)
      show ?thesis
      proof (cases "info = [] \<or> s = []")
        case True
        with u Inr PStr assms show ?thesis by (auto simp: prepare_file_def)
      next
        case False
        with u Inr PStr assms obtain r2 where "import_file_to_store env w1 sn s = Some (r2, w')"
          by (auto simp: prepare_file_def split: option.splits)
        from import_trace[OF this] show ?thesis by simp
      qed
    qed (use u Inr assms in \<open>auto simp: prepare_file_def split: if_splits\<close>)
  qed
  with upload_file_keys[OF u] show ?thesis by simp
qed

lemma cached_key: "cached w f \<Longrightarrow> p_resolved f \<in> fst ` set (state w)"
  unfolding cached_def using cached_entry by force

lemma attempted_final:
  assumes "suffix (trace v') (trace w')" "upload_attempted f (new_events v v')"
  shows "upload_attempted f (trace w')"
proof -
  from assms(2) obtain ev where "ev \<in> set (new_events v v')" "upload_event_for f ev"
    by (auto simp: upload_attempted_def list_ex_iff)
  then have "ev \<in> set (trace v')" by (auto simp: new_events_def dest: in_set_takeD)
  with assms(1) have "ev \<in> set (trace w')" using set_mono_suffix by blast
  with \<open>upload_event_for f ev\<close> show ?thesis by (auto simp: upload_attempted_def list_ex_iff)
qed

lemma witness_resolve:
  "create_or_get_file_search_store
     (example_env (Some [doc ''a.txt'', doc ''b.txt'', doc ''c.txt'']) upload_b_fails import_pending get_done)
     (example_tool [])
   = (Inr example_store, emit ListStores (example_tool []))"
  by (rule resolve_example)

lemma witness_docs:
  "e_docs (example_env (Some [doc ''a.txt'', doc ''b.txt'', doc ''c.txt'']) upload_b_fails import_pending get_done)
     = Some [doc ''a.txt'', doc ''b.txt'', doc ''c.txt'']"
  by (simp add: example_env_def)

lemma witness_nonempty: "[doc ''a.txt'', doc ''b.txt'', doc ''c.txt''] \<noteq> []"
  by simp

lemma witness_clean: "clean_state (emit ListStores (example_tool [])) = (None, emit ListStores (example_tool []))"
  by (simp add: clean_state_def example_tool_def emit_def)

lemma witness_prune: "fst (clean_state (emit ListStores (example_tool []))) = None"
  by (simp add: witness_clean)

lemma witness_polls: "\<forall>v op. \<exists>n. finishes n (example_env d u i get_done) v op"
proof (intro allI)
  fix v op
  have "finishes (Suc 0) (example_env d u i get_done) v op" by (simp add: example_env_def get_done_def)
  then show "\<exists>n. finishes n (example_env d u i get_done) v op" ..
qed

lemma witness_keys:
  "p_resolved (doc ''b.txt'') \<noteq> p_resolved (doc ''a.txt'')"
  "p_resolved (doc ''c.txt'') \<noteq> p_resolved (doc ''a.txt'')"
  "p_resolved (doc ''c.txt'') \<noteq> p_resolved (doc ''b.txt'')"
  by (simp_all add: doc_def ascii_def)

lemma three_uploads:
  fixes ws :: "tool list"
  assumes len: "length ws = Suc (length [a, b, c])"
      and z: "state (ws ! 0) = []"
      and steps: "\<forall>i < length [a, b, c].
                 prepare_file env sn (ws ! i) ([a, b, c] ! i) = Some (ws ! Suc i)
                 \<and> suffix (trace (ws ! Suc i)) (trace (last ws))
                 \<and> (cached (ws ! i) ([a, b, c] ! i)
                      \<or> upload_attempted ([a, b, c] ! i) (new_events (ws ! i) (ws ! Suc i)))
                 \<and> Q i"
      and keys: "p_resolved b \<noteq> p_resolved a" "p_resolved c \<noteq> p_resolved a" "p_resolved c \<noteq> p_resolved b"
  shows "upload_attempted a (trace (last ws)) \<and> upload_attempted b (trace (last ws))
         \<and> upload_attempted c (trace (last ws))"
proof -
  from steps have s0: "prepare_file env sn (ws ! 0) a = Some (ws ! 1)"
      "suffix (trace (ws ! 1)) (trace (last ws))"
      "cached (ws ! 0) a \<or> upload_attempted a (new_events (ws ! 0) (ws ! 1))"
    by (auto dest: spec[of _ 0])
  from steps have s1: "prepare_file env sn (ws ! 1) b = Some (ws ! 2)"
      "suffix (trace (ws ! 2)) (trace (last ws))"
      "cached (ws ! 1) b \<or> upload_attempted b (new_events (ws ! 1) (ws ! 2))"
    by (auto dest: spec[of _ 1] simp: numeral_2_eq_2)
  from steps have s2: "prepare_file env sn (ws ! 2) c = Some (ws ! 3)"
      "suffix (trace (ws ! 3)) (trace (last ws))"
      "cached (ws ! 2) c \<or> upload_attempted c (new_events (ws ! 2) (ws ! 3))"
    by (auto dest: spec[of _ 2] simp: numeral_2_eq_2 numeral_3_eq_3)
  have k0: "fst ` set (state (ws ! 0)) = {}" using z by simp
  from prepare_file_keys[OF s0(1)] k0 have k1: "fst ` set (state (ws ! 1)) \<subseteq> {p_resolved a}" by simp
  from prepare_file_keys[OF s1(1)] k1 have k2: "fst ` set (state (ws ! 2)) \<subseteq> {p_resolved b, p_resolved a}"
    by auto
  have "\<not> cached (ws ! 0) a" using cached_key[of "ws ! 0" a] k0 by auto
  with s0(3) have "upload_attempted a (new_events (ws ! 0) (ws ! 1))" by simp
  from attempted_final[OF s0(2) this] have a: "upload_attempted a (trace (last ws))" .
  have "\<not> cached (ws ! 1) b" using cached_key[of "ws ! 1" b] k1 keys by auto
  with s1(3) have "upload_attempted b (new_events (ws ! 1) (ws ! 2))" by simp
  from attempted_final[OF s1(2) this] have b: "upload_attempted b (trace (last ws))" .
  have "\<not> cached (ws ! 2) c" using cached_key[of "ws ! 2" c] k2 keys by auto
  with s2(3) have "upload_attempted c (new_events (ws ! 2) (ws ! 3))" by simp
  from attempted_final[OF s2(2) this] have c: "upload_attempted c (trace (last ws))" .
  from a b c show ?thesis by simp
qed

subsection \<open>Claim C6: no failure of one file stops the batch\<close>

text \<open>
  C6 (amended). When the store is resolved, the listing is not empty, the pruning
  before the loop raises nothing, and every operation that is polled reports done (or
  its poll raises) after finitely many polls, \<open>prepare\<close> returns the resolved store,
  whatever the uploads and imports of the single files raise, and the loop goes through
  one tool state per file: \<open>ws ! 0\<close> is the state left by the pruning, the loop body of
  the \<open>i\<close>-th file runs to its end from \<open>ws ! i\<close> and leaves \<open>ws ! Suc i\<close>, and the last
  state is the one \<open>prepare\<close> returns. In the step of each file, unless the ledger of
  the state the step starts from already answers for the file, an upload of it is
  attempted among the events of that step; and whenever the upload step, run from that
  state, yields an id that is a non-empty string and passes the identifier check after
  normalisation, the import request for it is issued among the events of that step.
\<close>

theorem prepare_continues:
  assumes "create_or_get_file_search_store env w = (Inr store, w1)"
      and "e_docs env = Some files" and "files \<noteq> []"
      and "fst (clean_state w1) = None"
      and "\<forall>v op. \<exists>n. finishes n env v op"
  shows "\<exists>ws. length ws = Suc (length files)
           \<and> clean_state w1 = (None, ws ! 0)
           \<and> prepare env w = Some (Inr store, last ws)
           \<and> (\<forall>i < length files.
                 prepare_file env (s_name store) (ws ! i) (files ! i) = Some (ws ! Suc i)
                 \<and> suffix (trace (ws ! Suc i)) (trace (last ws))
                 \<and> (cached (ws ! i) (files ! i)
                      \<or> upload_attempted (files ! i) (new_events (ws ! i) (ws ! Suc i)))
                 \<and> (\<forall>info u s. upload_file env (ws ! i) (files ! i) = (Inr info, u)
                        \<and> dict_get info file_id_key = PStr s
                        \<and> s \<noteq> [] \<and> is_valid_file_id (PStr (normalize_ref s))
                      \<longrightarrow> ImportFile (s_name store) (normalize_ref s)
                            \<in> set (new_events (ws ! i) (ws ! Suc i))))"
proof -
  obtain w2 where c: "clean_state w1 = (None, w2)" using assms(4) by (cases "clean_state w1") simp
  from prepare_loop_states[OF assms(5), of files w2 "s_name store"] obtain ws where
    len: "length ws = Suc (length files)" and z: "ws ! 0 = w2"
    and l: "prepare_loop env (s_name store) w2 files = Some (last ws)"
    and a: "\<forall>i < length files. prepare_file env (s_name store) (ws ! i) (files ! i) = Some (ws ! Suc i)
                 \<and> suffix (trace (ws ! Suc i)) (trace (last ws))"
    by blast
  have p: "prepare env w = Some (Inr store, last ws)"
    using assms(1-3) c l by (simp add: prepare_def list_docs_def)
  have "\<forall>i < length files.
                 prepare_file env (s_name store) (ws ! i) (files ! i) = Some (ws ! Suc i)
                 \<and> suffix (trace (ws ! Suc i)) (trace (last ws))
                 \<and> (cached (ws ! i) (files ! i)
                      \<or> upload_attempted (files ! i) (new_events (ws ! i) (ws ! Suc i)))
                 \<and> (\<forall>info u s. upload_file env (ws ! i) (files ! i) = (Inr info, u)
                        \<and> dict_get info file_id_key = PStr s
                        \<and> s \<noteq> [] \<and> is_valid_file_id (PStr (normalize_ref s))
                      \<longrightarrow> ImportFile (s_name store) (normalize_ref s)
                            \<in> set (new_events (ws ! i) (ws ! Suc i)))"
  proof (intro allI impI)
    fix i assume "i < length files"
    with a have pf: "prepare_file env (s_name store) (ws ! i) (files ! i) = Some (ws ! Suc i)"
      and s: "suffix (trace (ws ! Suc i)) (trace (last ws))" by simp_all
    from prepare_file_new[OF pf] pf s show "prepare_file env (s_name store) (ws ! i) (files ! i) = Some (ws ! Suc i)
                 \<and> suffix (trace (ws ! Suc i)) (trace (last ws))
                 \<and> (cached (ws ! i) (files ! i)
                      \<or> upload_attempted (files ! i) (new_events (ws ! i) (ws ! Suc i)))
                 \<and> (\<forall>info u s. upload_file env (ws ! i) (files ! i) = (Inr info, u)
                        \<and> dict_get info file_id_key = PStr s
                        \<and> s \<noteq> [] \<and> is_valid_file_id (PStr (normalize_ref s))
                      \<longrightarrow> ImportFile (s_name store) (normalize_ref s)
                            \<in> set (new_events (ws ! i) (ws ! Suc i)))"
      by blast
  qed
  with len c z p show ?thesis by blast
qed

text \<open>
  C6 (counterexample). Two files: the upload of \<open>a.txt\<close> raises; \<open>c.txt\<close> is in the
  ledger with a valid id, its import request returns an operation that is not done, and
  every poll returns the operation unchanged. The loop \<open>while not op.done\<close> never
  ends, so \<open>prepare\<close> does not return the store.
\<close>

theorem prepare_never_returns:
  "prepare (example_env (Some [doc ''a.txt'', doc ''c.txt'']) refuse import_pending get_pending)
     (example_tool [ledger3 ! 2]) = None"
proof -
  let ?E = "example_env (Some [doc ''a.txt'', doc ''c.txt'']) refuse import_pending get_pending"
  let ?w1 = "emit ListStores (example_tool [ledger3 ! 2])"
  have s1: "state ?w1 = [ledger3 ! 2]" and p1: "\<not> prefer_utf8 ?w1"
    by (simp_all add: example_tool_def emit_def)
  have "\<exists>w'. prepare_file ?E (s_name example_store) ?w1 (doc ''a.txt'') = Some w' \<and> state w' = state ?w1"
    using s1 p1 by (rule prepare_file_a)
  then obtain w2 where
    a: "prepare_file ?E (s_name example_store) ?w1 (doc ''a.txt'') = Some w2" and s2: "state w2 = [ledger3 ! 2]"
    unfolding s1 by blast
  have c: "prepare_file ?E (s_name example_store) w2 (doc ''c.txt'') = None"
    using s2 by (rule prepare_file_c)
  have l: "prepare_loop ?E (s_name example_store) ?w1 [doc ''a.txt'', doc ''c.txt''] = None"
    using a c by (rule loop_two)
  have "prepare ?E (example_tool [ledger3 ! 2])
      = (case prepare_loop ?E (s_name example_store) ?w1 [doc ''a.txt'', doc ''c.txt''] of
           None \<Rightarrow> None | Some w3 \<Rightarrow> Some (Inr example_store, w3))"
    by (rule prepare_unfold[OF resolve_example d_ex clean_example[OF s1]])
  then show ?thesis unfolding l by simp
qed

text \<open>
  An instance: three files, none in the ledger; every upload of \<open>b.txt\<close> raises, and
  the import operations of the other two finish at the first poll. The store is
  returned, and the final trace holds an upload attempt for each of the three files,
  also for \<open>c.txt\<close>, which comes after the file whose upload raised.
\<close>

theorem prepare_continues_witness:
  "\<exists>w'. prepare (example_env (Some [doc ''a.txt'', doc ''b.txt'', doc ''c.txt'']) upload_b_fails import_pending get_done)
            (example_tool []) = Some (Inr example_store, w')
        \<and> upload_attempted (doc ''a.txt'') (trace w')
        \<and> upload_attempted (doc ''b.txt'') (trace w')
        \<and> upload_attempted (doc ''c.txt'') (trace w')"
proof -
  define E where "E = example_env (Some [doc ''a.txt'', doc ''b.txt'', doc ''c.txt'']) upload_b_fails import_pending get_done"
  define w0 where "w0 = example_tool []"
  define w1 where "w1 = emit ListStores (example_tool [])"
  define a where "a = doc ''a.txt''"
  define b where "b = doc ''b.txt''"
  define c where "c = doc ''c.txt''"
  define sn where "sn = s_name example_store"
  have h1: "create_or_get_file_search_store E w0 = (Inr example_store, w1)"
    unfolding E_def w0_def w1_def by (rule witness_resolve)
  have h2: "e_docs E = Some [a, b, c]" unfolding E_def a_def b_def c_def by (rule witness_docs)
  have h3: "[a, b, c] \<noteq> []" by simp
  have h4: "fst (clean_state w1) = None" unfolding w1_def by (rule witness_prune)
  have h5: "\<forall>v op. \<exists>n. finishes n E v op" unfolding E_def by (rule witness_polls)
  have cl: "clean_state w1 = (None, w1)" unfolding w1_def by (rule witness_clean)
  have st: "state w1 = []" unfolding w1_def by (simp add: example_tool_def)
  have keys: "p_resolved b \<noteq> p_resolved a" "p_resolved c \<noteq> p_resolved a" "p_resolved c \<noteq> p_resolved b"
    unfolding a_def b_def c_def by (rule witness_keys)+
  from prepare_continues[OF h1 h2 h3 h4 h5] obtain ws where
    len: "length ws = Suc (length [a, b, c])"
    and c0: "clean_state w1 = (None, ws ! 0)"
    and p: "prepare E w0 = Some (Inr example_store, last ws)"
    and steps: "\<forall>i < length [a, b, c].
                 prepare_file E (s_name example_store) (ws ! i) ([a, b, c] ! i) = Some (ws ! Suc i)
                 \<and> suffix (trace (ws ! Suc i)) (trace (last ws))
                 \<and> (cached (ws ! i) ([a, b, c] ! i)
                      \<or> upload_attempted ([a, b, c] ! i) (new_events (ws ! i) (ws ! Suc i)))
                 \<and> (\<forall>info u s. upload_file E (ws ! i) ([a, b, c] ! i) = (Inr info, u)
                        \<and> dict_get info file_id_key = PStr s
                        \<and> s \<noteq> [] \<and> is_valid_file_id (PStr (normalize_ref s))
                      \<longrightarrow> ImportFile (s_name example_store) (normalize_ref s)
                            \<in> set (new_events (ws ! i) (ws ! Suc i)))"
    by (elim exE conjE)
  from c0 cl have "ws ! 0 = w1" by simp
  with st have z: "state (ws ! 0) = []" by simp
  from three_uploads[OF len z steps keys]
  have "upload_attempted a (trace (last ws)) \<and> upload_attempted b (trace (last ws))
         \<and> upload_attempted c (trace (last ws))" .
  with p have "\<exists>w'. prepare E w0 = Some (Inr example_store, w')
        \<and> upload_attempted a (trace w') \<and> upload_attempted b (trace w') \<and> upload_attempted c (trace w')"
    by (intro exI[of _ "last ws"]) simp
  then show ?thesis unfolding E_def w0_def a_def b_def c_def .
qed

section \<open>Properties of the state file\<close>

subsection \<open>Reading a string back\<close>

lemma hexval_hexdigit: "hexval (hexdigit n) = Some (n mod 16)"
proof -
  have "n mod 16 < 16" by simp
  then show ?thesis unfolding hexval_def hexdigit_def by auto
qed

lemma decode_control:
  assumes "c < 32"
  shows "decode_uXXXX (48 # 48 # hexdigit (c div 16) # hexdigit c # t) = Some c"
proof -
  have z: "hexval 48 = Some 0" by (simp add: hexval_def)
  have d: "c div 16 mod 16 = c div 16" using assms by simp
  have "c div 16 * 16 + c mod 16 = c" by simp
  then show ?thesis by (simp add: decode_uXXXX_def z hexval_hexdigit d)
qed

lemma scanstring_escape: "scanstring (escape_char c @ t) = cons_char c (scanstring t)"
proof -
  consider "c = 34" | "c = 92" | "c = 10" | "c = 13" | "c = 9" | "c = 8" | "c = 12"
    | "c < 32" "c \<notin> {10, 13, 9, 8, 12}" | "32 \<le> c" "c \<noteq> 34" "c \<noteq> 92"
    by fastforce
  then show ?thesis
  proof cases
    case 8
    then have e: "escape_char c = 92 # 117 # 48 # 48 # hexdigit (c div 16) # hexdigit c # []"
      by (simp add: escape_char_def ascii_def)
    show ?thesis unfolding e using 8(1) by (simp add: decode_control)
  next
    case 9
    then have e: "escape_char c = [c]" by (simp add: escape_char_def)
    show ?thesis unfolding e using 9 by simp
  qed (simp_all add: escape_char_def ascii_def unescape_def)
qed

lemma scanstring_body: "scanstring (concat (map escape_char s) @ 34 # rest) = Some (s, rest)"
  by (induction s) (simp_all add: scanstring_escape cons_char_def)

lemma encode_basestring_Cons: "encode_basestring s @ rest = 34 # concat (map escape_char s) @ 34 # rest"
  by (simp add: encode_basestring_def)

subsection \<open>Reading a value back\<close>

lemma skip_ws_stop: "\<not> is_ws c \<Longrightarrow> skip_ws (c # t) = c # t"
  by (simp add: skip_ws_def)

lemma skip_ws_spaces: "\<not> is_ws c \<Longrightarrow> skip_ws (replicate k 32 @ c # t) = c # t"
  by (induction k) (simp_all add: skip_ws_def is_ws_def)

lemma skip_ws_indent: "\<not> is_ws c \<Longrightarrow> skip_ws (newline_indent l @ c # t) = c # t"
  using skip_ws_spaces[of c "2 * l" t] by (simp add: newline_indent_def newline_def skip_ws_def is_ws_def)

lemma dumps_at_head:
  "\<exists>c cs. dumps_at l v = c # cs \<and> \<not> is_ws c \<and> c \<noteq> 93 \<and> c \<noteq> 125"
  by (cases v) (auto simp: ascii_def is_ws_def encode_basestring_def)

lemma dumps_at_length: "0 < length (dumps_at l v)"
  using dumps_at_head[of l v] by auto

lemma update_new: "k \<notin> fst ` set d \<Longrightarrow> AList.update k v d = d @ [(k, v)]"
  by (induction d) auto

lemma dict_of_distinct_aux:
  "distinct (map fst (d @ kvs)) \<Longrightarrow> foldl (\<lambda>d (k, v). AList.update k v d) d kvs = d @ kvs"
proof (induction kvs arbitrary: d)
  case (Cons kv kvs)
  obtain k v where kv: "kv = (k, v)" by (cases kv)
  from Cons.prems have "k \<notin> fst ` set d" unfolding kv by auto
  then have u: "AList.update k v d = d @ [(k, v)]" by (rule update_new)
  from Cons.prems have "distinct (map fst ((d @ [(k, v)]) @ kvs))" unfolding kv by simp
  from Cons.IH[OF this] show ?case unfolding kv by (simp add: u)
qed simp

lemma dict_of_distinct: "distinct (map fst kvs) \<Longrightarrow> dict_of kvs = kvs"
  using dict_of_distinct_aux[of "[]" kvs] by (simp add: dict_of_def)

lemma scan_array_join:
  assumes el: "\<And>x rest n. x \<in> set xs \<Longrightarrow> length (dumps_at l x) \<le> n
                 \<Longrightarrow> scan_once n (dumps_at l x @ rest) = Some (x, rest)"
      and ne: "xs \<noteq> []"
      and len: "length (join (44 # newline_indent l) (map (dumps_at l) xs)) < m"
  shows "scan_array m (join (44 # newline_indent l) (map (dumps_at l) xs) @ newline_indent l' @ 93 # rest)
           = Some (xs, rest)"
  using assms
proof (induction xs arbitrary: m)
  case Nil
  then show ?case by simp
next
  case (Cons x xs)
  from Cons.prems(3) obtain n where m: "m = Suc n" by (cases m) auto
  have w93: "\<not> is_ws 93" and w44: "\<not> is_ws 44" by (simp_all add: is_ws_def)
  show ?case
  proof (cases xs)
    case Nil
    from Cons.prems(3) have "length (dumps_at l x) \<le> n" unfolding m Nil by simp
    from Cons.prems(1)[OF _ this] have s: "\<And>rest. scan_once n (dumps_at l x @ rest) = Some (x, rest)" by simp
    show ?thesis unfolding m Nil by (simp add: s skip_ws_indent[OF w93])
  next
    case (Cons y ys)
    let ?sep = "44 # newline_indent l"
    have j: "join ?sep (map (dumps_at l) (x # xs)) = dumps_at l x @ ?sep @ join ?sep (map (dumps_at l) xs)"
      unfolding Cons by simp
    from Cons.prems(3) have lx: "length (dumps_at l x) \<le> n"
      and lr: "length (join ?sep (map (dumps_at l) xs)) < n" unfolding m j by simp_all
    from \<open>\<And>x' rest n. x' \<in> set (x # xs) \<Longrightarrow> length (dumps_at l x') \<le> n
            \<Longrightarrow> scan_once n (dumps_at l x' @ rest) = Some (x', rest)\<close>[OF _ lx]
    have s: "\<And>rest. scan_once n (dumps_at l x @ rest) = Some (x, rest)" by simp
    have ne: "xs \<noteq> []" unfolding Cons by simp
    have ih: "scan_array n (join ?sep (map (dumps_at l) xs) @ newline_indent l' @ 93 # rest) = Some (xs, rest)"
      using Cons.prems(1) by (intro Cons.IH[OF _ ne lr]) simp
    obtain c cs where h: "dumps_at l y = c # cs" and wc: "\<not> is_ws c" using dumps_at_head[of l y] by blast
    have "\<exists>t. join ?sep (map (dumps_at l) xs) = c # t"
      unfolding Cons by (cases ys) (simp_all add: h)
    then obtain t where t: "join ?sep (map (dumps_at l) xs) = c # t" by blast
    have sk: "skip_ws (newline_indent l @ join ?sep (map (dumps_at l) xs) @ newline_indent l' @ 93 # rest)
              = join ?sep (map (dumps_at l) xs) @ newline_indent l' @ 93 # rest"
      unfolding t using skip_ws_indent[OF wc] by simp
    show ?thesis unfolding m j using ih by (simp add: s skip_ws_stop[OF w44] sk)
  qed
qed

lemma scan_object_join:
  assumes el: "\<And>k v rest n. (k, v) \<in> set kvs \<Longrightarrow> length (dumps_at l v) \<le> n
                 \<Longrightarrow> scan_once n (dumps_at l v @ rest) = Some (v, rest)"
      and ne: "kvs \<noteq> []"
      and len: "length (join (44 # newline_indent l)
                  (map (\<lambda>(k, v). encode_basestring k @ 58 # 32 # dumps_at l v) kvs)) \<le> m"
  shows "scan_object m (tl (join (44 # newline_indent l)
                  (map (\<lambda>(k, v). encode_basestring k @ 58 # 32 # dumps_at l v) kvs)
               @ newline_indent l' @ 125 # rest))
           = Some (kvs, rest)"
  using assms
proof (induction kvs arbitrary: m)
  case Nil
  then show ?case by simp
next
  case (Cons kv kvs)
  obtain k v where kv: "kv = (k, v)" by (cases kv)
  let ?sep = "44 # newline_indent l"
  let ?mem = "\<lambda>(k, v). encode_basestring k @ 58 # 32 # dumps_at l v"
  have w125: "\<not> is_ws 125" and w44: "\<not> is_ws 44" and w58: "\<not> is_ws 58" and w34: "\<not> is_ws 34"
    by (simp_all add: is_ws_def)
  obtain c cs where h: "dumps_at l v = c # cs" and wc: "\<not> is_ws c" using dumps_at_head[of l v] by blast
  have sp: "\<And>t. skip_ws (32 # dumps_at l v @ t) = dumps_at l v @ t"
    unfolding h using wc by (simp add: skip_ws_def is_ws_def)
  show ?case
  proof (cases kvs)
    case Nil
    have j: "join ?sep (map ?mem (kv # kvs)) = encode_basestring k @ 58 # 32 # dumps_at l v"
      unfolding Nil kv by simp
    from Cons.prems(3) have "length (dumps_at l v) + 4 \<le> m" unfolding j by (simp add: encode_basestring_def)
    then obtain n where m: "m = Suc n" and lv: "length (dumps_at l v) \<le> n" by (cases m) auto
    from Cons.prems(1)[OF _ lv, of k] have s: "\<And>rest. scan_once n (dumps_at l v @ rest) = Some (v, rest)"
      unfolding kv by simp
    have t: "tl (join ?sep (map ?mem (kv # kvs)) @ newline_indent l' @ 125 # rest)
           = concat (map escape_char k) @ 34 # (58 # 32 # dumps_at l v @ newline_indent l' @ 125 # rest)"
      unfolding j by (simp add: encode_basestring_def)
    show ?thesis unfolding t m
      by (simp add: Nil kv scanstring_body skip_ws_stop[OF w58] sp s skip_ws_indent[OF w125])
  next
    case inner: (Cons kv2 ys)
    have j: "join ?sep (map ?mem (kv # kvs))
           = encode_basestring k @ 58 # 32 # dumps_at l v @ ?sep @ join ?sep (map ?mem kvs)"
      unfolding inner kv by simp
    from Cons.prems(3) have "length (dumps_at l v) + 4 \<le> m"
      and "length (join ?sep (map ?mem kvs)) + 4 \<le> m" unfolding j by (simp_all add: encode_basestring_def)
    then obtain n where m: "m = Suc n" and lv: "length (dumps_at l v) \<le> n"
      and lr: "length (join ?sep (map ?mem kvs)) \<le> n" by (cases m) auto
    from Cons.prems(1)[OF _ lv, of k]
    have s: "\<And>rest. scan_once n (dumps_at l v @ rest) = Some (v, rest)" unfolding kv by simp
    have ne: "kvs \<noteq> []" unfolding inner by simp
    have el': "\<And>k v rest n. (k, v) \<in> set kvs \<Longrightarrow> length (dumps_at l v) \<le> n
                 \<Longrightarrow> scan_once n (dumps_at l v @ rest) = Some (v, rest)"
    proof -
      fix k v rest n assume "(k, v) \<in> set kvs" and l: "length (dumps_at l v) \<le> n"
      then have "(k, v) \<in> set (kv # kvs)" by simp
      from Cons.prems(1)[OF this l] show "scan_once n (dumps_at l v @ rest) = Some (v, rest)" .
    qed
    have ih: "scan_object n (tl (join ?sep (map ?mem kvs) @ newline_indent l' @ 125 # rest)) = Some (kvs, rest)"
      using el' ne lr by (rule Cons.IH)
    obtain k2 v2 where kv2: "kv2 = (k2, v2)" by (cases kv2)
    have "\<exists>t. join ?sep (map ?mem kvs) = 34 # t"
      unfolding inner kv2 by (cases ys) (simp_all add: encode_basestring_def)
    then obtain t where t: "join ?sep (map ?mem kvs) = 34 # t" by blast
    have sk: "skip_ws (newline_indent l @ join ?sep (map ?mem kvs) @ newline_indent l' @ 125 # rest)
              = 34 # t @ newline_indent l' @ 125 # rest"
      unfolding t using skip_ws_indent[OF w34] by simp
    have ih': "scan_object n (t @ newline_indent l' @ 125 # rest) = Some (kvs, rest)"
      using ih unfolding t by simp
    have tt: "tl (join ?sep (map ?mem (kv # kvs)) @ newline_indent l' @ 125 # rest)
           = concat (map escape_char k) @ 34 # (58 # 32 # dumps_at l v @
               44 # (newline_indent l @ join ?sep (map ?mem kvs) @ newline_indent l' @ 125 # rest))"
      unfolding j by (simp add: encode_basestring_def)
    show ?thesis unfolding tt m
      by (simp add: scanstring_body skip_ws_stop[OF w58] sp s skip_ws_stop[OF w44] sk ih' kv)
  qed
qed

lemma scan_once_dumps:
  "distinct_keys v \<Longrightarrow> length (dumps_at l v) \<le> n \<Longrightarrow> scan_once n (dumps_at l v @ rest) = Some (v, rest)"
proof (induction l v arbitrary: n rest rule: dumps_at.induct)
  case (1 level)
  then obtain m where "n = Suc m" by (cases n) (auto simp: ascii_def)
  then show ?case by (simp add: ascii_def startswith_def)
next
  case (2 level b)
  then obtain m where "n = Suc m" by (cases n) (auto simp: ascii_def split: if_splits)
  then show ?case by (simp add: ascii_def startswith_def)
next
  case (3 level s)
  then obtain m where "n = Suc m" by (cases n) (auto simp: encode_basestring_def)
  then show ?case by (simp add: encode_basestring_def scanstring_body)
next
  case (4 level xs)
  have w93: "\<not> is_ws 93" by (simp add: is_ws_def)
  show ?case
  proof (cases "xs = []")
    case True
    with 4 obtain m where "n = Suc m" by (cases n) (auto simp: ascii_def)
    then show ?thesis using True by (simp add: ascii_def skip_ws_stop[OF w93])
  next
    case False
    let ?sep = "44 # newline_indent (Suc level)"
    let ?j = "join ?sep (map (dumps_at (Suc level)) xs)"
    have d: "dumps_at level (PList xs) @ rest = 91 # newline_indent (Suc level) @ ?j @ newline_indent level @ 93 # rest"
      using False by simp
    from "4.prems"(2) False obtain m where m: "n = Suc m" and lj: "length ?j < m"
      by (cases n) (auto simp: newline_indent_def)
    have el: "\<And>x rest n. x \<in> set xs \<Longrightarrow> length (dumps_at (Suc level) x) \<le> n
                 \<Longrightarrow> scan_once n (dumps_at (Suc level) x @ rest) = Some (x, rest)"
    proof -
      fix x rest n assume x: "x \<in> set xs" and l: "length (dumps_at (Suc level) x) \<le> n"
      from "4.prems"(1) x have "distinct_keys x" by (simp add: list_all_iff)
      from "4.IH"[OF False x this, of n rest] l
      show "scan_once n (dumps_at (Suc level) x @ rest) = Some (x, rest)" by simp
    qed
    have a: "scan_array m (?j @ newline_indent level @ 93 # rest) = Some (xs, rest)"
      using el False lj by (rule scan_array_join)
    obtain y ys where xs: "xs = y # ys" using False by (cases xs) auto
    obtain c cs where h: "dumps_at (Suc level) y = c # cs" and wc: "\<not> is_ws c" and c93: "c \<noteq> 93"
      using dumps_at_head[of "Suc level" y] by blast
    have "\<exists>t. ?j = c # t" unfolding xs using h by (cases ys) simp_all
    then obtain t where t: "?j = c # t" by blast
    have sk: "skip_ws (newline_indent (Suc level) @ ?j @ newline_indent level @ 93 # rest)
            = c # t @ newline_indent level @ 93 # rest"
      unfolding t using skip_ws_indent[OF wc] by simp
    have a': "scan_array m (c # t @ newline_indent level @ 93 # rest) = Some (xs, rest)"
      using a unfolding t by simp
    show ?thesis unfolding d m using c93 by (simp add: sk a')
  qed
next
  case (5 level kvs)
  have w125: "\<not> is_ws 125" and w34: "\<not> is_ws 34" by (simp_all add: is_ws_def)
  show ?case
  proof (cases "kvs = []")
    case True
    with 5 obtain m where "n = Suc m" by (cases n) (auto simp: ascii_def)
    then show ?thesis using True by (simp add: ascii_def skip_ws_stop[OF w125])
  next
    case False
    let ?sep = "44 # newline_indent (Suc level)"
    let ?mem = "\<lambda>(k, v). encode_basestring k @ 58 # 32 # dumps_at (Suc level) v"
    let ?j = "join ?sep (map ?mem kvs)"
    have d: "dumps_at level (PDict kvs) @ rest = 123 # newline_indent (Suc level) @ ?j @ newline_indent level @ 125 # rest"
      using False by simp
    from "5.prems"(2) False obtain m where m: "n = Suc m" and lj: "length ?j \<le> m"
      by (cases n) (auto simp: newline_indent_def)
    have el: "\<And>k v rest n. (k, v) \<in> set kvs \<Longrightarrow> length (dumps_at (Suc level) v) \<le> n
                 \<Longrightarrow> scan_once n (dumps_at (Suc level) v @ rest) = Some (v, rest)"
    proof -
      fix k v rest n assume x: "(k, v) \<in> set kvs" and l: "length (dumps_at (Suc level) v) \<le> n"
      from "5.prems"(1) x have "distinct_keys v" by (auto simp: list_all_iff)
      from "5.IH"[OF False x refl this, of n rest] l
      show "scan_once n (dumps_at (Suc level) v @ rest) = Some (v, rest)" by simp
    qed
    have a: "scan_object m (tl (?j @ newline_indent level @ 125 # rest)) = Some (kvs, rest)"
      using el False lj by (rule scan_object_join)
    obtain kv ys where kvs: "kvs = kv # ys" using False by (cases kvs) auto
    obtain k v where kv: "kv = (k, v)" by (cases kv)
    have "\<exists>t. ?j = 34 # t" unfolding kvs kv by (cases ys) (simp_all add: encode_basestring_def)
    then obtain t where t: "?j = 34 # t" by blast
    have sk: "skip_ws (newline_indent (Suc level) @ ?j @ newline_indent level @ 125 # rest)
            = 34 # t @ newline_indent level @ 125 # rest"
      unfolding t using skip_ws_indent[OF w34] by simp
    have a': "scan_object m (t @ newline_indent level @ 125 # rest) = Some (kvs, rest)"
      using a unfolding t by simp
    from "5.prems"(1) have "dict_of kvs = kvs" by (simp add: dict_of_distinct)
    then show ?thesis unfolding d m by (simp add: sk a')
  qed
qed

lemma json_loads_dumps:
  assumes "distinct_keys v"
  shows "json_loads (dumps_at 0 v) = Some v"
proof -
  obtain c cs where h: "dumps_at 0 v = c # cs" and wc: "\<not> is_ws c" using dumps_at_head[of 0 v] by blast
  have sk: "skip_ws (dumps_at 0 v) = dumps_at 0 v" unfolding h using wc by (simp add: skip_ws_def)
  from scan_once_dumps[OF assms, of 0 "length (dumps_at 0 v)" "[]"]
  have "scan_once (length (dumps_at 0 v)) (dumps_at 0 v) = Some (v, [])" by simp
  moreover have "skip_ws [] = []" by (simp add: skip_ws_def)
  ultimately show ?thesis by (simp add: json_loads_def sk)
qed

subsection \<open>The text of the state file holds no carriage return\<close>

lemma universal_newlines_id: "13 \<notin> set s \<Longrightarrow> universal_newlines s = s"
  by (induction s rule: universal_newlines.induct) auto

lemma hexdigit_not_cr: "hexdigit n \<noteq> 13"
  unfolding hexdigit_def by auto

lemma escape_char_no_cr: "13 \<notin> set (escape_char c)"
  using hexdigit_not_cr[of c] hexdigit_not_cr[of "c div 16"]
  by (auto simp: escape_char_def ascii_def)

lemma encode_basestring_no_cr: "13 \<notin> set (encode_basestring s)"
  by (auto simp: encode_basestring_def escape_char_no_cr)

lemma newline_indent_no_cr: "13 \<notin> set (newline_indent l)"
  by (auto simp: newline_indent_def newline_def)

lemma join_no_cr: "13 \<notin> set sep \<Longrightarrow> (\<And>x. x \<in> set xs \<Longrightarrow> 13 \<notin> set x) \<Longrightarrow> 13 \<notin> set (join sep xs)"
  by (induction sep xs rule: join.induct) auto

lemma dumps_at_no_cr: "13 \<notin> set (dumps_at l v)"
proof (induction l v rule: dumps_at.induct)
  case (4 level xs)
  show ?case
  proof (cases "xs = []")
    case True then show ?thesis by (simp add: ascii_def)
  next
    case False
    have "13 \<notin> set (join (44 # newline_indent (level + 1)) (map (dumps_at (level + 1)) xs))"
      using 4 False by (intro join_no_cr) (auto simp: newline_indent_no_cr)
    with False show ?thesis by (simp add: newline_indent_no_cr)
  qed
next
  case (5 level kvs)
  show ?case
  proof (cases "kvs = []")
    case True then show ?thesis by (simp add: ascii_def)
  next
    case False
    have "13 \<notin> set (join (44 # newline_indent (level + 1))
               (map (\<lambda>(k, v). encode_basestring k @ [58, 32] @ dumps_at (level + 1) v) kvs))"
    proof (intro join_no_cr)
      fix x assume "x \<in> set (map (\<lambda>(k, v). encode_basestring k @ [58, 32] @ dumps_at (level + 1) v) kvs)"
      then obtain k v where kv: "(k, v) \<in> set kvs" and x: "x = encode_basestring k @ [58, 32] @ dumps_at (level + 1) v"
        by auto
      from "5.IH"[OF False kv refl] show "13 \<notin> set x"
        unfolding x by (simp add: encode_basestring_no_cr)
    qed (simp add: newline_indent_no_cr)
    with False show ?thesis by (simp add: newline_indent_no_cr)
  qed
qed (simp_all add: encode_basestring_no_cr ascii_def)

subsection \<open>Strings are written as they are\<close>

lemma plain_basestring: "plain s \<Longrightarrow> encode_basestring s = 34 # s @ [34]"
proof -
  assume "plain s"
  then have "concat (map escape_char s) = s"
    by (induction s) (simp_all add: plain_def escape_char_def)
  then show ?thesis by (simp add: encode_basestring_def)
qed

lemma sublist_join: "x \<in> set xs \<Longrightarrow> sublist x (join sep xs)"
proof (induction sep xs rule: join.induct)
  case (3 sep a b ys)
  show ?case
  proof (cases "x = a")
    case True
    then show ?thesis by (simp add: sublist_def) (metis append_Nil)
  next
    case False
    with 3 have "sublist x (join sep (b # ys))" by simp
    then obtain ps ss where "join sep (b # ys) = ps @ x @ ss" by (auto simp: sublist_def)
    then have "join sep (a # b # ys) = (a @ sep @ ps) @ x @ ss" by simp
    then show ?thesis unfolding sublist_def by blast
  qed
qed (simp_all)

lemma sublist_mid: "sublist x b \<Longrightarrow> sublist x (a @ b @ c)"
proof -
  assume "sublist x b"
  then obtain ps ss where "b = ps @ x @ ss" by (auto simp: sublist_def)
  then have "a @ b @ c = (a @ ps) @ x @ (ss @ c)" by simp
  then show ?thesis unfolding sublist_def by blast
qed

lemma dumps_at_strings: "s \<in> set (strings_of v) \<Longrightarrow> sublist (encode_basestring s) (dumps_at l v)"
proof (induction l v rule: dumps_at.induct)
  case (4 level xs)
  then obtain x where x: "x \<in> set xs" and s: "s \<in> set (strings_of x)" by auto
  then have ne: "xs \<noteq> []" by auto
  let ?sep = "44 # newline_indent (level + 1)"
  from "4.IH"[OF ne x s] have "sublist (encode_basestring s) (dumps_at (level + 1) x)" .
  moreover have "sublist (dumps_at (level + 1) x) (join ?sep (map (dumps_at (level + 1)) xs))"
    using x by (intro sublist_join) simp
  ultimately have "sublist (encode_basestring s) (join ?sep (map (dumps_at (level + 1)) xs))"
    by (rule sublist_order.order_trans)
  from sublist_mid[OF this, of "91 # newline_indent (level + 1)" "newline_indent level @ [93]"]
  show ?case using ne by simp
next
  case (5 level kvs)
  then obtain k v where kv: "(k, v) \<in> set kvs" and s: "s = k \<or> s \<in> set (strings_of v)" by auto
  then have ne: "kvs \<noteq> []" by auto
  let ?sep = "44 # newline_indent (level + 1)"
  let ?mem = "\<lambda>(k, v). encode_basestring k @ [58, 32] @ dumps_at (level + 1) v"
  have "sublist (encode_basestring s) (?mem (k, v))"
  proof (cases "s = k")
    case True
    then show ?thesis by (simp add: sublist_def) (metis append_Nil)
  next
    case False
    with s have "s \<in> set (strings_of v)" by simp
    from "5.IH"[OF ne kv refl this] have "sublist (encode_basestring s) (dumps_at (level + 1) v)" .
    from sublist_mid[OF this, of "encode_basestring k @ [58, 32]" "[]"] show ?thesis by simp
  qed
  moreover have "sublist (?mem (k, v)) (join ?sep (map ?mem kvs))"
    using kv by (intro sublist_join) force
  ultimately have "sublist (encode_basestring s) (join ?sep (map ?mem kvs))"
    by (rule sublist_order.order_trans)
  from sublist_mid[OF this, of "123 # newline_indent (level + 1)" "newline_indent level @ [125]"]
  show ?case using ne by simp
qed simp_all

subsection \<open>Claim C8: saving the ledger and loading it again\<close>

text \<open>
  C8 (amended). For every ledger none of whose strings holds a lone surrogate (U+D800
  to U+DFFF), saving the ledger succeeds and loading the file gives the same mapping
  back; the in-memory ledger is untouched. The file holds the text of \<open>json.dumps\<close>, in
  which every string of the ledger that needs no JSON escape, so every string of
  non-ASCII characters, stands between two quotes exactly as it is. That each dict has
  each key once is how Python dicts are; the nesting depth that the interpreter's
  recursion limit allows is not modelled.
\<close>

theorem save_then_load:
  assumes "ledger_encodable (state w)" and "distinct_keys (ledger_value (state w))"
  shows "\<exists>w'. save_state w = (None, w') \<and> state w' = state w
           \<and> state_file w' = Some (json_dumps (state w))
           \<and> load_state w' = ledger_value (state w)
           \<and> (\<forall>s \<in> set (strings_of (ledger_value (state w))).
                 plain s \<longrightarrow> sublist (34 # s @ [34]) (json_dumps (state w)))"
proof -
  let ?text = "json_dumps (state w)"
  let ?w' = "emit (WriteText ?text) (w\<lparr>state_file := Some ?text\<rparr>)"
  from assms(1) have "utf8_encodable ?text" by (rule json_dumps_encodable)
  then have s: "save_state w = (None, ?w')" by (simp add: save_state_def Let_def)
  have f: "state_file ?w' = Some ?text" and st: "state ?w' = state w" by (simp_all add: emit_def)
  have "13 \<notin> set ?text" unfolding json_dumps_def by (rule dumps_at_no_cr)
  then have u: "universal_newlines ?text = ?text" by (rule universal_newlines_id)
  have "json_loads ?text = Some (ledger_value (state w))"
    unfolding json_dumps_def using assms(2) by (rule json_loads_dumps)
  then have l: "load_state ?w' = ledger_value (state w)" by (simp add: load_state_def f u)
  have v: "\<forall>s \<in> set (strings_of (ledger_value (state w))). plain s \<longrightarrow> sublist (34 # s @ [34]) ?text"
  proof (intro ballI impI)
    fix s assume m: "s \<in> set (strings_of (ledger_value (state w)))" and p: "plain s"
    from m have "sublist (encode_basestring s) ?text" unfolding json_dumps_def by (rule dumps_at_strings)
    then show "sublist (34 # s @ [34]) ?text" using plain_basestring[OF p] by simp
  qed
  from s st f l v show ?thesis by blast
qed

text \<open>
  C8 (counterexample). A ledger with one key, \<open>/\<close> followed by the lone surrogate
  U+DC80 (what a file name with the undecodable byte 0x80 becomes), and an empty
  entry. The text of \<open>json.dumps\<close> holds the surrogate, \<open>write_text\<close> raises
  \<open>UnicodeEncodeError\<close> and leaves the file empty, and loading the file gives the empty
  dict, not the ledger.
\<close>

theorem save_lone_surrogate_loses_ledger:
  "fst (save_state (example_tool [([47, 56448], [])])) = Some UnicodeEncodeError
   \<and> state_file (snd (save_state (example_tool [([47, 56448], [])]))) = Some []
   \<and> load_state (snd (save_state (example_tool [([47, 56448], [])]))) = PDict []
   \<and> ledger_value (state (example_tool [([47, 56448], [])])) = PDict [([47, 56448], PDict [])]"
proof -
  let ?w = "example_tool [([47, 56448], [])]"
  have st: "state ?w = [([47, 56448], [])]" by (simp add: example_tool_def)
  have "\<not> utf8_encodable (json_dumps [([47, 56448], [])])"
    by (simp add: json_dumps_def ledger_value_def encode_basestring_def escape_char_def)
  then have s: "save_state ?w = (Some UnicodeEncodeError, emit (WriteText []) (?w\<lparr>state_file := Some []\<rparr>))"
    by (simp add: save_state_def Let_def st)
  have l: "json_loads [] = None" by (simp add: json_loads_def skip_ws_def)
  show ?thesis unfolding s by (simp add: load_state_def emit_def l st ledger_value_def)
qed

text \<open>
  An instance: the key \<open>/\<close>, U+00E9, U+4E2D and an entry whose id is \<open>files/abc\<close>.
\<close>

lemma witness_ledger:
  "ledger_encodable (state (example_tool [([47, 233, 20013], [(file_id_key, PStr (ascii ''files/abc''))])]))
   \<and> distinct_keys (ledger_value (state (example_tool [([47, 233, 20013], [(file_id_key, PStr (ascii ''files/abc''))])])))
   \<and> [47, 233, 20013] \<in> set (strings_of (ledger_value (state (example_tool [([47, 233, 20013], [(file_id_key, PStr (ascii ''files/abc''))])]))))
   \<and> plain [47, 233, 20013]"
  by (simp add: example_tool_def ledger_encodable_def ledger_value_def file_id_key_def plain_def)

theorem save_then_load_witness:
  "fst (save_state (example_tool [([47, 233, 20013], [(file_id_key, PStr (ascii ''files/abc''))])])) = None
   \<and> load_state (snd (save_state (example_tool [([47, 233, 20013], [(file_id_key, PStr (ascii ''files/abc''))])])))
       = PDict [([47, 233, 20013], PDict [(file_id_key, PStr (ascii ''files/abc''))])]
   \<and> sublist [34, 47, 233, 20013, 34]
       (json_dumps [([47, 233, 20013], [(file_id_key, PStr (ascii ''files/abc''))])])"
proof -
  define w where "w = example_tool [([47, 233, 20013], [(file_id_key, PStr (ascii ''files/abc''))])]"
  have st: "state w = [([47, 233, 20013], [(file_id_key, PStr (ascii ''files/abc''))])]"
    by (simp add: w_def example_tool_def)
  have lv: "ledger_value (state w) = PDict [([47, 233, 20013], PDict [(file_id_key, PStr (ascii ''files/abc''))])]"
    by (simp add: st ledger_value_def)
  from witness_ledger have h1: "ledger_encodable (state w)" and h2: "distinct_keys (ledger_value (state w))"
    and h3: "[47, 233, 20013] \<in> set (strings_of (ledger_value (state w)))" and h4: "plain [47, 233, 20013]"
    unfolding w_def by simp_all
  from save_then_load[OF h1 h2] obtain w' where s: "save_state w = (None, w')"
    and l: "load_state w' = ledger_value (state w)"
    and v: "\<forall>s \<in> set (strings_of (ledger_value (state w))).
                 plain s \<longrightarrow> sublist (34 # s @ [34]) (json_dumps (state w))"
    by (elim exE conjE)
  from v h3 h4 have "sublist (34 # [47, 233, 20013] @ [34]) (json_dumps (state w))" by blast
  then have "sublist [34, 47, 233, 20013, 34] (json_dumps (state w))" by simp
  with s l have "fst (save_state w) = None \<and> load_state (snd (save_state w)) = ledger_value (state w)
      \<and> sublist [34, 47, 233, 20013, 34] (json_dumps (state w))" by simp
  then show ?thesis unfolding lv unfolding st unfolding w_def .
qed

end
